theory Spec2Isabelle
  imports Main "HOL-Library.Word" "HOL-Library.Char_ord" "HOL-Library.List_Lexorder"
begin

unbundle bit_operations_syntax

section \<open>PLockfreeHashTable: the persistent lock-free hash table\<close>

subsection \<open>Pointers, nodes and the state of the table\<close>

text \<open>
  A \<^verbatim>\<open>Node*\<close> is a 64-bit word whose low bit is the deletion mark; \<^verbatim>\<open>nullptr\<close> is 0.
\<close>

type_synonym ptr = "64 word"

text \<open>
  \<^verbatim>\<open>struct Node { key; val; MarkPtr next; }\<close>. The two strings use \<^verbatim>\<open>my_alloc\<close>: a
  string that does not fit the object's own buffer keeps its characters in a block of
  the persistent allocator, whose address is recorded (0 when there is no block).
\<close>

record Node =
  Node_key :: string
  Node_val :: string
  Node_next :: ptr
  Node_key_data :: ptr
  Node_val_data :: ptr

text \<open>
  A \<^verbatim>\<open>MarkPtr*\<close> (the variable \<^verbatim>\<open>prev\<close>) is either \<^verbatim>\<open>&buckets[idx].ui\<close> or
  \<^verbatim>\<open>&(curr->next)\<close> of a node.
\<close>

datatype MarkPtrLoc = BucketLoc nat | NextLoc ptr

text \<open>The calls of one operation that matter for persistence and reclamation, in order.\<close>

datatype event =
    Store MarkPtrLoc ptr
  | CAS MarkPtrLoc ptr ptr bool
  | Clwb_Node ptr
  | Clwb_MarkPtr MarkPtrLoc
  | Clwb_range_nofence ptr
  | Sfence
  | Start_op nat
  | End_op nat
  | Retire ptr nat
  | Delete ptr

text \<open>
  The shared memory is the bucket array and the persistent heap. Other threads are a
  schedule of functions on the shared memory; the next one of them runs right before
  each atomic access of the operation. The empty schedule is sequential execution.
  \<open>tr_null\<close> is what the transient allocator will answer to the requests to come, in
  order: \<open>True\<close> is a null; past the end of the list every request is served.
\<close>

type_synonym shared = "(nat \<Rightarrow> ptr) \<times> (ptr \<Rightarrow> Node)"

record PHT =
  buckets :: "nat \<Rightarrow> ptr"
  heap :: "ptr \<Rightarrow> Node"
  rp_avail :: "ptr list"
  retired :: "ptr list"
  trace :: "event list"
  hist :: "shared list"
  sched :: "(shared \<Rightarrow> shared) list"
  tr_null :: "bool list"


text \<open>\<^verbatim>\<open>const uint64_t MARK_MASK = ~0x1\<close>\<close>

definition MARK_MASK :: ptr where
  "MARK_MASK = NOT 1"

definition getPtr :: "ptr \<Rightarrow> ptr" where
  "getPtr mptr = mptr AND MARK_MASK"

definition getMark :: "ptr \<Rightarrow> bool" where
  "getMark mptr = (mptr AND 1 \<noteq> 0)"

definition mixPtrMark :: "ptr \<Rightarrow> bool \<Rightarrow> ptr" where
  "mixPtrMark p mk = p OR (if mk then 1 else 0)"

definition setMark :: "ptr \<Rightarrow> ptr" where
  "setMark mptr = mixPtrMark mptr True"

text \<open>
  \<^verbatim>\<open>curr->key.compare(key)\<close>: negative, zero or positive by the byte-lexicographic
  order of the two strings (a proper prefix is smaller).
\<close>

definition compare_str :: "string \<Rightarrow> string \<Rightarrow> int" where
  "compare_str a b = (if a < b then - 1 else if a = b then 0 else 1)"

subsection \<open>Atomic accesses, write-backs and fences\<close>

definition interfere :: "PHT \<Rightarrow> PHT" where
  "interfere s =
     (case sched s of
        [] \<Rightarrow> s
      | f # fs \<Rightarrow>
          (case f (buckets s, heap s) of
             (b, h) \<Rightarrow> s\<lparr>buckets := b, heap := h, sched := fs\<rparr>))"

definition log_event :: "event \<Rightarrow> PHT \<Rightarrow> PHT" where
  "log_event e s = s\<lparr>trace := trace s @ [e]\<rparr>"

definition ld :: "MarkPtrLoc \<Rightarrow> PHT \<Rightarrow> ptr" where
  "ld loc s = (case loc of BucketLoc i \<Rightarrow> buckets s i | NextLoc a \<Rightarrow> Node_next (heap s a))"

definition wr :: "MarkPtrLoc \<Rightarrow> ptr \<Rightarrow> PHT \<Rightarrow> PHT" where
  "wr loc v s =
     (let s1 = (case loc of
                  BucketLoc i \<Rightarrow> s\<lparr>buckets := (buckets s)(i := v)\<rparr>
                | NextLoc a \<Rightarrow> s\<lparr>heap := (heap s)(a := (heap s a)\<lparr>Node_next := v\<rparr>)\<rparr>)
      in s1\<lparr>hist := hist s1 @ [(buckets s1, heap s1)]\<rparr>)"


definition atomic_store :: "MarkPtrLoc \<Rightarrow> ptr \<Rightarrow> PHT \<Rightarrow> PHT" where
  "atomic_store loc v s = log_event (Store loc v) (wr loc v (interfere s))"


definition clwb_Node :: "ptr \<Rightarrow> PHT \<Rightarrow> PHT" where
  "clwb_Node p s = log_event (Clwb_Node p) s"

definition clwb_MarkPtr :: "MarkPtrLoc \<Rightarrow> PHT \<Rightarrow> PHT" where
  "clwb_MarkPtr loc s = log_event (Clwb_MarkPtr loc) s"

definition sfence :: "PHT \<Rightarrow> PHT" where
  "sfence s = log_event Sfence s"

text \<open>
  Modelled from the spec: \<^verbatim>\<open>RCUTracker\<close> is not among the sources. \<^verbatim>\<open>start_op\<close> and
  \<^verbatim>\<open>end_op\<close> delimit the protected section; \<^verbatim>\<open>retire\<close> hands a pointer to the
  reclaimer, which gives the memory back at some later time.
\<close>

definition tracker_start_op :: "nat \<Rightarrow> PHT \<Rightarrow> PHT" where
  "tracker_start_op tid s = log_event (Start_op tid) s"

definition tracker_end_op :: "nat \<Rightarrow> PHT \<Rightarrow> PHT" where
  "tracker_end_op tid s = log_event (End_op tid) s"

definition tracker_retire :: "ptr \<Rightarrow> nat \<Rightarrow> PHT \<Rightarrow> PHT" where
  "tracker_retire p tid s = log_event (Retire p tid) (s\<lparr>retired := retired s @ [p]\<rparr>)"

subsection \<open>Allocation\<close>


definition RP_free :: "ptr \<Rightarrow> PHT \<Rightarrow> PHT" where
  "RP_free p s = s\<lparr>rp_avail := rp_avail s @ [p]\<rparr>"

text \<open>
  How an operation ends: it returns a value, it lets \<^verbatim>\<open>std::bad_alloc\<close> escape to the
  caller, or it ends the process with \<^verbatim>\<open>exit(status)\<close>.
\<close>

datatype 'a outcome = Return 'a PHT | Throw_bad_alloc PHT | Exit int


definition deallocate :: "ptr \<Rightarrow> PHT \<Rightarrow> PHT" where
  "deallocate p s = RP_free p s"


definition Node_operator_delete :: "ptr \<Rightarrow> PHT \<Rightarrow> PHT" where
  "Node_operator_delete p s = RP_free p s"

text \<open>
  The standard library's string is not among the sources: a string of at most
  \<open>local_capacity\<close> characters lives in the object itself, a longer one asks the allocator
  for its characters and the terminator (15 is the buffer of libstdc++).
\<close>

definition local_capacity :: nat where
  "local_capacity = 15"


text \<open>
  The transient allocator is the one of \<^verbatim>\<open>std::string\<close>, the global \<^verbatim>\<open>operator new\<close>: it
  is not among the sources either. When it gets null it throws \<^verbatim>\<open>std::bad_alloc\<close>. A
  \<^verbatim>\<open>std::string\<close> made from a string longer than its own buffer is one request; giving
  the memory back changes nothing that is modelled.
\<close>

definition transient_new :: "PHT \<Rightarrow> unit outcome" where
  "transient_new s =
     (case tr_null s of
        [] \<Rightarrow> Return () s
      | b # bs \<Rightarrow> if b then Throw_bad_alloc (s\<lparr>tr_null := bs\<rparr>) else Return () (s\<lparr>tr_null := bs\<rparr>))"

definition string_copy :: "string \<Rightarrow> PHT \<Rightarrow> unit outcome" where
  "string_copy str s = (if length str > local_capacity then transient_new s else Return () s)"

definition string_destroy :: "ptr \<Rightarrow> PHT \<Rightarrow> PHT" where
  "string_destroy d s = (if d = 0 then s else deallocate d s)"



text \<open>\<^verbatim>\<open>delete tmpNode\<close>: the members are destroyed in reverse order, then the block is freed.\<close>

definition delete_Node :: "ptr \<Rightarrow> PHT \<Rightarrow> PHT" where
  "delete_Node p s =
     (let s1 = string_destroy (Node_val_data (heap s p)) s;
          s2 = string_destroy (Node_key_data (heap s p)) s1
      in log_event (Delete p) (Node_operator_delete p s2))"

subsection \<open>findNode\<close>


subsection \<open>The operations\<close>













section \<open>TGraph: the transient graph\<close>

subsection \<open>Relations, vertices and the vertex table\<close>

record Relation =
  Relation_src :: int
  Relation_dest :: int
  Relation_weight :: int

text \<open>\<^verbatim>\<open>RelationEqual\<close>: two relations are the same key when source and destination agree.\<close>

definition RelationEqual :: "Relation \<Rightarrow> Relation \<Rightarrow> bool" where
  "RelationEqual r1 r2 = (Relation_src r1 = Relation_src r2 \<and> Relation_dest r1 = Relation_dest r2)"

text \<open>
  \<^verbatim>\<open>using Set = std::unordered_set<Relation*,RelationHash,RelationEqual>\<close>: the elements in
  some order. A \<^verbatim>\<open>Relation*\<close> is the relation it points to; relations are never changed
  after their construction.
\<close>

type_synonym RelSet = "Relation list"

definition Set_find :: "RelSet \<Rightarrow> Relation \<Rightarrow> Relation option" where
  "Set_find S r = find (\<lambda>x. RelationEqual x r) S"

definition Set_insert :: "Relation \<Rightarrow> RelSet \<Rightarrow> RelSet \<times> bool" where
  "Set_insert r S = (case Set_find S r of None \<Rightarrow> (S @ [r], True) | Some x \<Rightarrow> (S, False))"

definition has_relation :: "RelSet \<Rightarrow> Relation \<Rightarrow> bool" where
  "has_relation S r = (Set_find S r \<noteq> None)"

text \<open>\<^verbatim>\<open>remove_relation\<close>: the set without the element found, and that element (or null).\<close>

definition remove_relation :: "RelSet \<Rightarrow> Relation \<Rightarrow> RelSet \<times> Relation option" where
  "remove_relation S r =
     (case Set_find S r of Some tmp \<Rightarrow> (remove1 tmp S, Some tmp) | None \<Rightarrow> (S, None))"

record Vertex =
  adjacency_list :: RelSet
  dest_list :: RelSet
  Vertex_id :: int
  Vertex_lbl :: int

record VertexMeta =
  idxToVertex :: "Vertex option"
  vertexLocks :: bool
  vertexSeqs :: "32 word"

text \<open>\<^verbatim>\<open>vMeta\<close>, an array of \<^verbatim>\<open>numVertices\<close> slots.\<close>

type_synonym TGraph = "VertexMeta list"

text \<open>
  How a call can go wrong: an index outside the array, a null vertex dereferenced, a
  mutex locked while it is held (the call never returns), \<^verbatim>\<open>std::abort()\<close>, a failed
  \<^verbatim>\<open>assert\<close>.
\<close>

datatype fault = Out_of_bounds | Null_deref | Deadlock | Abort | Assert_failed

definition in_range :: "TGraph \<Rightarrow> int \<Rightarrow> bool" where
  "in_range g i = (0 \<le> i \<and> nat i < length g)"

definition vertex :: "TGraph \<Rightarrow> int \<Rightarrow> Vertex option" where
  "vertex g idx = idxToVertex (g ! nat idx)"

definition set_vertex :: "int \<Rightarrow> Vertex option \<Rightarrow> TGraph \<Rightarrow> TGraph" where
  "set_vertex idx v g = g[nat idx := (g ! nat idx)\<lparr>idxToVertex := v\<rparr>]"

definition lock :: "int \<Rightarrow> TGraph \<Rightarrow> fault + TGraph" where
  "lock idx g =
     (if \<not> in_range g idx then Inl Out_of_bounds
      else if vertexLocks (g ! nat idx) then Inl Deadlock
      else Inr (g[nat idx := (g ! nat idx)\<lparr>vertexLocks := True\<rparr>]))"

definition unlock :: "int \<Rightarrow> TGraph \<Rightarrow> TGraph" where
  "unlock idx g = g[nat idx := (g ! nat idx)\<lparr>vertexLocks := False\<rparr>]"

text \<open>\<^verbatim>\<open>vMeta[idx].vertexSeqs++\<close> on a \<^verbatim>\<open>uint32_t\<close>\<close>

definition inc_seq :: "int \<Rightarrow> TGraph \<Rightarrow> TGraph" where
  "inc_seq idx g = g[nat idx := (g ! nat idx)\<lparr>vertexSeqs := vertexSeqs (g ! nat idx) + 1\<rparr>]"

definition get_seq :: "TGraph \<Rightarrow> int \<Rightarrow> 32 word" where
  "get_seq g idx = vertexSeqs (g ! nat idx)"

text \<open>\<^verbatim>\<open>source(idx)\<close> and \<^verbatim>\<open>destination(idx)\<close>, for a slot whose vertex is not null.\<close>

definition source :: "TGraph \<Rightarrow> int \<Rightarrow> RelSet" where
  "source g idx = (case vertex g idx of None \<Rightarrow> [] | Some v \<Rightarrow> adjacency_list v)"

definition destination :: "TGraph \<Rightarrow> int \<Rightarrow> RelSet" where
  "destination g idx = (case vertex g idx of None \<Rightarrow> [] | Some v \<Rightarrow> dest_list v)"

definition set_source :: "int \<Rightarrow> RelSet \<Rightarrow> TGraph \<Rightarrow> TGraph" where
  "set_source idx S g = set_vertex idx (map_option (\<lambda>v. v\<lparr>adjacency_list := S\<rparr>) (vertex g idx)) g"

definition set_destination :: "int \<Rightarrow> RelSet \<Rightarrow> TGraph \<Rightarrow> TGraph" where
  "set_destination idx S g = set_vertex idx (map_option (\<lambda>v. v\<lparr>dest_list := S\<rparr>) (vertex g idx)) g"

fun lock_all :: "int list \<Rightarrow> TGraph \<Rightarrow> fault + TGraph" where
  "lock_all [] g = Inr g"
| "lock_all (u # us) g = (case lock u g of Inl e \<Rightarrow> Inl e | Inr g1 \<Rightarrow> lock_all us g1)"

fun unlock_all :: "int list \<Rightarrow> TGraph \<Rightarrow> TGraph" where
  "unlock_all [] g = g"
| "unlock_all (u # us) g = unlock_all us (unlock u g)"

subsection \<open>Edges\<close>

text \<open>The two locks of an edge operation in the order they are taken: the smaller id first.\<close>

definition lock_order :: "int \<Rightarrow> int \<Rightarrow> int list" where
  "lock_order src dest = (if src > dest then [dest, src] else [src, dest])"

definition add_edge :: "int \<Rightarrow> int \<Rightarrow> int \<Rightarrow> TGraph \<Rightarrow> fault + bool \<times> TGraph" where
  "add_edge src dest weight g =
     (if src = dest then Inr (False, g)
      else
        (let r = \<lparr>Relation_src = src, Relation_dest = dest, Relation_weight = weight\<rparr> in
         case lock_all (lock_order src dest) g of
           Inl e \<Rightarrow> Inl e
         | Inr g1 \<Rightarrow>
             if vertex g1 src = None \<or> vertex g1 dest = None
             then Inr (False, unlock_all (rev (lock_order src dest)) g1)
             else if has_relation (source g1 src) r then
               (if \<not> has_relation (destination g1 dest) r then Inl Assert_failed
                else Inr (False, unlock_all (rev (lock_order src dest)) g1))
             else
               (case Set_insert r (source g1 src) of
                  (srcSet, ret1) \<Rightarrow>
                    (case Set_insert r (destination (set_source src srcSet g1) dest) of
                       (destSet, ret2) \<Rightarrow>
                         (let g2 = set_destination dest destSet (set_source src srcSet g1) in
                          if ret1 \<noteq> ret2 then Inl Assert_failed
                          else if ret1 then
                            Inr (True, unlock_all (rev (lock_order src dest))
                                         (inc_seq dest (inc_seq src g2)))
                          else Inr (False, unlock_all (rev (lock_order src dest)) g2))))))"

definition has_edge :: "int \<Rightarrow> int \<Rightarrow> TGraph \<Rightarrow> fault + bool \<times> TGraph" where
  "has_edge src dest g =
     (case lock src g of
        Inl e \<Rightarrow> Inl e
      | Inr g1 \<Rightarrow>
          if vertex g1 src = None then Inr (False, unlock src g1)
          else
            (let r = \<lparr>Relation_src = src, Relation_dest = dest, Relation_weight = - 1\<rparr>
             in Inr (has_relation (source g1 src) r, unlock src g1)))"

definition remove_edge :: "int \<Rightarrow> int \<Rightarrow> TGraph \<Rightarrow> fault + bool \<times> TGraph" where
  "remove_edge src dest g =
     (if src = dest then Inr (False, g)
      else
        case lock_all (lock_order src dest) g of
          Inl e \<Rightarrow> Inl e
        | Inr g1 \<Rightarrow>
            if vertex g1 src \<noteq> None \<and> vertex g1 dest \<noteq> None then
              (let r = \<lparr>Relation_src = src, Relation_dest = dest, Relation_weight = - 1\<rparr> in
               case remove_relation (source g1 src) r of
                 (srcSet, ret1) \<Rightarrow>
                   (case remove_relation (destination (set_source src srcSet g1) dest) r of
                      (destSet, ret2) \<Rightarrow>
                        (let g2 = set_destination dest destSet (set_source src srcSet g1) in
                         if ret1 \<noteq> ret2 then Inl Assert_failed
                         else if ret1 \<noteq> None then
                           Inr (True, unlock_all (rev (lock_order src dest))
                                        (inc_seq dest (inc_seq src g2)))
                         else Inr (False, unlock_all (rev (lock_order src dest)) g2))))
            else Inr (False, unlock_all (rev (lock_order src dest)) g1))"

subsection \<open>Vertices\<close>

text \<open>
  \<^verbatim>\<open>std::uniform_int_distribution<> uniformVertex(0,numVertices)\<close>: the values a draw can
  take are those of the closed interval, \<^verbatim>\<open>numVertices\<close> included.
\<close>

definition uniformVertex_values :: "TGraph \<Rightarrow> int list" where
  "uniformVertex_values g = [0..int (length g)]"

text \<open>
  \<^verbatim>\<open>add_vertex\<close> draws its candidate neighbours from a random generator seeded with the
  time: \<open>samples\<close> are the values drawn, in order. A draw equal to the loop counter is
  skipped; \<^verbatim>\<open>vid\<close> is added, the vector sorted and its repetitions erased.
\<close>

definition sample_vec :: "int list \<Rightarrow> int \<Rightarrow> int list" where
  "sample_vec samples vid =
     remdups_adj (sort (map snd (filter (\<lambda>(i, u). u \<noteq> int i) (zip [0..<length samples] samples)) @ [vid]))"

text \<open>The loop that links the new vertex to the sampled vertices that exist.\<close>

fun link_new_vertex :: "int \<Rightarrow> int list \<Rightarrow> TGraph \<Rightarrow> TGraph" where
  "link_new_vertex vid [] g = g"
| "link_new_vertex vid (u # us) g =
     (if vertex g u = None then link_new_vertex vid us g
      else if u = vid then link_new_vertex vid us g
      else
        (let r = \<lparr>Relation_src = vid, Relation_dest = u, Relation_weight = - 1\<rparr>;
             g1 = set_source vid (fst (Set_insert r (source g vid))) g;
             g2 = set_destination u (fst (Set_insert r (destination g1 u))) g1
         in link_new_vertex vid us g2))"

text \<open>The closing loop of \<^verbatim>\<open>add_vertex\<close>, over the vector from its end.\<close>

fun bump_and_unlock :: "int \<Rightarrow> int list \<Rightarrow> TGraph \<Rightarrow> TGraph" where
  "bump_and_unlock vid [] g = g"
| "bump_and_unlock vid (u # us) g =
     bump_and_unlock vid us
       (unlock u (if vertex g vid \<noteq> None \<and> vertex g u \<noteq> None then inc_seq u g else g))"

definition add_vertex :: "int list \<Rightarrow> int \<Rightarrow> TGraph \<Rightarrow> fault + bool \<times> TGraph" where
  "add_vertex samples vid g =
     (let vec = sample_vec samples vid;
          new_v = \<lparr>adjacency_list = [], dest_list = [], Vertex_id = vid, Vertex_lbl = vid\<rparr>
      in case lock_all vec g of
           Inl e \<Rightarrow> Inl e
         | Inr g1 \<Rightarrow>
             if vertex g1 vid = None
             then Inr (True, bump_and_unlock vid (rev vec)
                               (link_new_vertex vid vec (set_vertex vid (Some new_v) g1)))
             else Inr (False, bump_and_unlock vid (rev vec) g1))"

text \<open>Step 1 of \<^verbatim>\<open>remove_vertex\<close>: the neighbours of \<^verbatim>\<open>vid\<close> and \<^verbatim>\<open>vid\<close>, sorted, once each.\<close>

definition collect_vertices :: "TGraph \<Rightarrow> int \<Rightarrow> int list" where
  "collect_vertices g vid =
     remdups_adj (sort (map Relation_dest (source g vid) @ map Relation_src (destination g vid) @ [vid]))"

text \<open>Step 2: the locks in the order of the vector, with the check made after each.\<close>

fun acquire :: "int \<Rightarrow> 32 word \<Rightarrow> int list \<Rightarrow> TGraph \<Rightarrow> fault + TGraph" where
  "acquire vid seq [] g = Inr g"
| "acquire vid seq (u # us) g =
     (case lock u g of
        Inl e \<Rightarrow> Inl e
      | Inr g1 \<Rightarrow>
          if vertex g1 u = None \<and> get_seq g1 vid = seq then Inl Abort
          else acquire vid seq us g1)"

text \<open>Step 3: the edges between \<^verbatim>\<open>vid\<close> and each other vertex leave the other vertex's sets.\<close>

fun detach :: "int \<Rightarrow> int list \<Rightarrow> TGraph \<Rightarrow> fault + TGraph" where
  "detach vid [] g = Inr g"
| "detach vid (other # us) g =
     (if other = vid then detach vid us g
      else if vertex g other = None then Inl Null_deref
      else
        (let src = \<lparr>Relation_src = other, Relation_dest = vid, Relation_weight = - 1\<rparr>;
             dest = \<lparr>Relation_src = vid, Relation_dest = other, Relation_weight = - 1\<rparr>
         in if \<not> has_relation (source g other) src \<and> \<not> has_relation (destination g other) dest
            then Inl Abort
            else
              (let g1 = set_source other (fst (remove_relation (source g other) src)) g;
                   g2 = set_destination other (fst (remove_relation (destination g1 other) dest)) g1
               in if has_relation (source g2 other) src \<or> has_relation (destination g2 other) dest
                  then Inl Assert_failed
                  else detach vid us g2)))"

text \<open>Step 4: the sequence numbers and the locks, over the vector from its end.\<close>

fun release :: "int list \<Rightarrow> TGraph \<Rightarrow> TGraph" where
  "release [] g = g"
| "release (u # us) g = release us (unlock u (inc_seq u g))"

text \<open>
  \<^verbatim>\<open>remove_vertex\<close>. Between the unlock of step 1 and the first lock of step 2 the
  operation holds no lock: there the other threads run, as the next function of \<open>env\<close>
  (none when \<open>env\<close> is empty). \<^verbatim>\<open>goto startOver\<close> is the recursive call.
\<close>

fun remove_vertex :: "nat \<Rightarrow> (TGraph \<Rightarrow> TGraph) list \<Rightarrow> int \<Rightarrow> TGraph \<Rightarrow> (fault + bool \<times> TGraph) option" where
  "remove_vertex 0 env vid g = None"
| "remove_vertex (Suc n) env vid g =
     (case lock vid g of
        Inl e \<Rightarrow> Some (Inl e)
      | Inr g1 \<Rightarrow>
          if vertex g1 vid = None then Some (Inr (False, unlock vid g1))
          else
            (let seq = get_seq g1 vid;
                 vertices = collect_vertices g1 vid;
                 g2 = unlock vid g1;
                 g3 = (case env of [] \<Rightarrow> g2 | f # fs \<Rightarrow> f g2)
             in case acquire vid seq vertices g3 of
                  Inl e \<Rightarrow> Some (Inl e)
                | Inr g4 \<Rightarrow>
                    if get_seq g4 vid \<noteq> seq
                    then remove_vertex n (tl env) vid (unlock_all (rev vertices) g4)
                    else
                      (case detach vid vertices g4 of
                         Inl e \<Rightarrow> Some (Inl e)
                       | Inr g5 \<Rightarrow>
                           if vertex g5 vid = None then Some (Inl Null_deref)
                           else Some (Inr (True, release (rev vertices) (set_vertex vid None g5))))))"

section \<open>States and predicates used in the statements\<close>

subsection \<open>The hash table as constructed\<close>



subsection \<open>What an operation does with a null from an allocator\<close>


text \<open>
  From \<open>s\<close> to \<open>s'\<close> the transient allocator has answered some requests, none of them with
  null.
\<close>

definition served :: "PHT \<Rightarrow> PHT \<Rightarrow> bool" where
  "served s s' \<longleftrightarrow> (\<exists>j\<le>length (tr_null s). tr_null s' = drop j (tr_null s) \<and> True \<notin> set (take j (tr_null s)))"

text \<open>
  An outcome in which no null of the transient allocator went unreported: the process was
  not ended, and a normal return means that every request was served.
\<close>

definition propagated :: "PHT \<Rightarrow> 'a outcome \<Rightarrow> bool" where
  "propagated s out = (case out of Return r s' \<Rightarrow> served s s' | Throw_bad_alloc s' \<Rightarrow> True | Exit c \<Rightarrow> False)"



subsection \<open>Persistence of the writes of one operation\<close>

text \<open>
  A monitor reads the events of an operation in order. \<open>dirty\<close> holds the pointer
  locations the operation has stored to or exchanged and not yet written back, \<open>flushed\<close>
  those written back with no fence since. A write-back of a node counts for the node's
  \<^verbatim>\<open>next\<close> field: cache lines are not modelled. \<open>sound\<close> records that every
  successful exchange so far installed a pointer whose referent had no pending write.
\<close>

record pmon =
  dirty :: "MarkPtrLoc set"
  flushed :: "MarkPtrLoc set"
  sound :: bool

definition pmon_init :: pmon where
  "pmon_init = \<lparr>dirty = {}, flushed = {}, sound = True\<rparr>"

fun pmon_step :: "pmon \<Rightarrow> event \<Rightarrow> pmon" where
  "pmon_step m (Store loc v) = m\<lparr>dirty := insert loc (dirty m), flushed := flushed m - {loc}\<rparr>"
| "pmon_step m (CAS loc expected desired ok) =
     (if ok
      then m\<lparr>dirty := insert loc (dirty m), flushed := flushed m - {loc},
             sound := sound m \<and> NextLoc (getPtr desired) \<notin> dirty m \<union> flushed m\<rparr>
      else m)"
| "pmon_step m (Clwb_Node p) =
     (if NextLoc p \<in> dirty m
      then m\<lparr>dirty := dirty m - {NextLoc p}, flushed := insert (NextLoc p) (flushed m)\<rparr> else m)"
| "pmon_step m (Clwb_MarkPtr loc) =
     (if loc \<in> dirty m
      then m\<lparr>dirty := dirty m - {loc}, flushed := insert loc (flushed m)\<rparr> else m)"
| "pmon_step m Sfence = m\<lparr>flushed := {}\<rparr>"
| "pmon_step m (Delete p) = m\<lparr>dirty := dirty m - {NextLoc p}, flushed := flushed m - {NextLoc p}\<rparr>"
| "pmon_step m e = m"

text \<open>The monitor after the events of a state, and the monitor with nothing pending.\<close>

definition pm :: "PHT \<Rightarrow> pmon" where
  "pm s = foldl pmon_step pmon_init (trace s)"

definition clean :: "pmon \<Rightarrow> bool" where
  "clean m \<longleftrightarrow> sound m \<and> dirty m = {} \<and> flushed m = {}"


subsection \<open>Chains, buckets and tables\<close>

text \<open>
  \<open>chain h p as\<close>: following \<^verbatim>\<open>next\<close> pointers from \<open>p\<close>, marks stripped, visits the nodes
  \<open>as\<close> in this order and then reaches null.
\<close>

primrec chain :: "(ptr \<Rightarrow> Node) \<Rightarrow> ptr \<Rightarrow> ptr list \<Rightarrow> bool" where
  "chain h p [] = (p = 0)"
| "chain h p (a # as) = (p = a \<and> a \<noteq> 0 \<and> chain h (getPtr (Node_next (h a))) as)"

text \<open>A node is marked when its \<^verbatim>\<open>next\<close> field carries the deletion mark.\<close>

definition marked :: "(ptr \<Rightarrow> Node) \<Rightarrow> ptr \<Rightarrow> bool" where
  "marked h a = getMark (Node_next (h a))"


text \<open>The unmarked nodes of a chain, and the keys and values they hold.\<close>

definition live :: "(ptr \<Rightarrow> Node) \<Rightarrow> ptr list \<Rightarrow> ptr list" where
  "live h as = filter (\<lambda>a. \<not> marked h a) as"

definition entries :: "(ptr \<Rightarrow> Node) \<Rightarrow> ptr list \<Rightarrow> (string \<times> string) list" where
  "entries h as = map (\<lambda>a. (Node_key (h a), Node_val (h a))) (live h as)"

text \<open>Two heaps that differ in \<^verbatim>\<open>next\<close> pointers only, the marks left as they are.\<close>

definition same_fields :: "(ptr \<Rightarrow> Node) \<Rightarrow> (ptr \<Rightarrow> Node) \<Rightarrow> bool" where
  "same_fields h h' \<longleftrightarrow>
     (\<forall>a. h' a = (h a)\<lparr>Node_next := Node_next (h' a)\<rparr> \<and>
          getMark (Node_next (h' a)) = getMark (Node_next (h a)))"

text \<open>
  The state after \<^verbatim>\<open>findNode\<close> has taken the marked node \<open>cur\<close> out of the chain, with
  no other thread: the exchange on \<open>prev\<close>, its write-back and fence, the retirement.
\<close>

definition unlinked :: "MarkPtrLoc \<Rightarrow> ptr \<Rightarrow> nat \<Rightarrow> PHT \<Rightarrow> PHT" where
  "unlinked prev cur tid s =
     tracker_retire cur tid (sfence (clwb_MarkPtr prev
       (log_event (CAS prev cur (getPtr (Node_next (heap s cur))) True)
          (wr prev (getPtr (Node_next (heap s cur))) (sfence (clwb_MarkPtr prev (clwb_Node cur s)))))))"







subsection \<open>The graph: well-formed states\<close>

text \<open>The key \<^verbatim>\<open>Relation r(src, dest, -1)\<close> that the operations look an edge up with.\<close>

definition edge :: "int \<Rightarrow> int \<Rightarrow> Relation" where
  "edge u v = \<lparr>Relation_src = u, Relation_dest = v, Relation_weight = - 1\<rparr>"

definition locked :: "TGraph \<Rightarrow> int \<Rightarrow> bool" where
  "locked g i = vertexLocks (g ! nat i)"

text \<open>The table after \<^verbatim>\<open>lock(i)\<close> has returned.\<close>

definition set_locked :: "int \<Rightarrow> TGraph \<Rightarrow> TGraph" where
  "set_locked i g = g[nat i := (g ! nat i)\<lparr>vertexLocks := True\<rparr>]"

text \<open>
  The states between operations: no lock is held; every relation in the adjacency set of
  \<open>i\<close> starts at \<open>i\<close>, every relation in the incoming set of \<open>i\<close> ends at \<open>i\<close>, both with
  the other end inside the table and different from \<open>i\<close>; a set holds one relation per
  key; and a relation is in the adjacency set of its source exactly when it is in the
  incoming set of its destination.
\<close>

definition graph_inv :: "TGraph \<Rightarrow> bool" where
  "graph_inv g \<longleftrightarrow>
     (\<forall>i. in_range g i \<longrightarrow>
        \<not> locked g i \<and>
        (\<forall>r\<in>set (source g i). Relation_src r = i \<and> Relation_dest r \<noteq> i \<and> in_range g (Relation_dest r)) \<and>
        (\<forall>r\<in>set (destination g i). Relation_dest r = i \<and> Relation_src r \<noteq> i \<and> in_range g (Relation_src r)) \<and>
        distinct (map Relation_dest (source g i)) \<and>
        distinct (map Relation_src (destination g i))) \<and>
     (\<forall>r. in_range g (Relation_src r) \<and> in_range g (Relation_dest r) \<longrightarrow>
        (r \<in> set (source g (Relation_src r)) \<longleftrightarrow> r \<in> set (destination g (Relation_dest r))))"

text \<open>
  What the other threads may do while \<^verbatim>\<open>remove_vertex\<close> holds no lock: they keep the
  states well-formed, and they leave a vertex as it is unless they change its sequence
  number.
\<close>

definition env_ok :: "(TGraph \<Rightarrow> TGraph) \<Rightarrow> bool" where
  "env_ok f \<longleftrightarrow>
     (\<forall>g. graph_inv g \<longrightarrow>
        graph_inv (f g) \<and> length (f g) = length g \<and>
        (\<forall>v. in_range g v \<and> get_seq (f g) v = get_seq g v \<longrightarrow> vertex (f g) v = vertex g v))"

definition no_relation_of :: "int \<Rightarrow> TGraph \<Rightarrow> bool" where
  "no_relation_of vid g \<longleftrightarrow>
     (\<forall>j. in_range g j \<longrightarrow>
        (\<forall>r\<in>set (source g j) \<union> set (destination g j). Relation_src r \<noteq> vid \<and> Relation_dest r \<noteq> vid))"

text \<open>The symmetry of the two indexes, as the specification states it.\<close>

definition symmetric :: "TGraph \<Rightarrow> bool" where
  "symmetric g \<longleftrightarrow>
     (\<forall>u v. in_range g u \<and> in_range g v \<longrightarrow>
        has_relation (source g u) (edge u v) = has_relation (destination g v) (edge u v))"

text \<open>A small graph for the concrete instances: three vertices, no edge.\<close>

definition one_vertex :: "int \<Rightarrow> VertexMeta" where
  "one_vertex i = \<lparr>idxToVertex = Some \<lparr>adjacency_list = [], dest_list = [], Vertex_id = i, Vertex_lbl = i\<rparr>,
     vertexLocks = False, vertexSeqs = 0\<rparr>"

definition three_vertices :: TGraph where
  "three_vertices = [one_vertex 0, one_vertex 1, one_vertex 2]"

text \<open>Another thread that runs one \<^verbatim>\<open>add_edge\<close> to its end.\<close>

definition other_add_edge :: "int \<Rightarrow> int \<Rightarrow> int \<Rightarrow> TGraph \<Rightarrow> TGraph" where
  "other_add_edge src dest weight g = (case add_edge src dest weight g of Inr (b, g') \<Rightarrow> g' | Inl e \<Rightarrow> g)"

section \<open>Properties of the hash table\<close>

subsection \<open>Pointer tags\<close>

lemma getPtr_setMark: "getPtr (setMark p) = getPtr p"
  by (simp add: getPtr_def setMark_def mixPtrMark_def MARK_MASK_def bit.conj_disj_distrib2)


subsection \<open>Events and the persistence monitor\<close>

lemma clean_eq: "clean m \<longleftrightarrow> m = pmon_init"
  by (cases m) (auto simp: clean_def pmon_init_def)

lemma pm_log_event [simp]: "pm (log_event e s) = pmon_step (pm s) e"
  by (simp add: pm_def log_event_def)

lemma trace_interfere [simp]: "trace (interfere s) = trace s"
  by (simp add: interfere_def split: list.splits prod.splits)

lemma pm_simps [simp]:
  "pm (interfere s) = pm s" "pm (wr loc v s) = pm s"
  "pm (s\<lparr>retired := r\<rparr>) = pm s" "pm (s\<lparr>rp_avail := a\<rparr>) = pm s" "pm (s\<lparr>heap := h\<rparr>) = pm s"
  by (simp_all add: pm_def wr_def Let_def split: MarkPtrLoc.splits)




lemma pm_misc [simp]:
  "pm (clwb_Node p s) = pmon_step (pm s) (Clwb_Node p)"
  "pm (clwb_MarkPtr loc s) = pmon_step (pm s) (Clwb_MarkPtr loc)"
  "pm (sfence s) = pmon_step (pm s) Sfence"
  "pm (tracker_retire p tid s) = pm s"
  "pm (tracker_start_op tid s) = pm s"
  "pm (tracker_end_op tid s) = pm s"
  by (simp_all add: clwb_Node_def clwb_MarkPtr_def sfence_def tracker_retire_def tracker_start_op_def
      tracker_end_op_def)

lemma heap_log_simps [simp]:
  "heap (log_event e s) = heap s" "buckets (log_event e s) = buckets s"
  "heap (clwb_Node p s) = heap s" "heap (clwb_MarkPtr loc s) = heap s" "heap (sfence s) = heap s"
  by (simp_all add: log_event_def clwb_Node_def clwb_MarkPtr_def sfence_def)

















subsection \<open>Sequential runs on an empty bucket\<close>


lemma sched_simps [simp]:
  "sched (log_event e s) = sched s" "sched (wr loc v s) = sched s"
  "sched (clwb_Node p s) = sched s" "sched (clwb_MarkPtr loc s) = sched s" "sched (sfence s) = sched s"
  "sched (tracker_start_op tid s) = sched s" "sched (tracker_end_op tid s) = sched s"
  by (simp_all add: log_event_def wr_def Let_def clwb_Node_def clwb_MarkPtr_def sfence_def
      tracker_start_op_def tracker_end_op_def split: MarkPtrLoc.splits)

lemma buckets_simps [simp]:
  "buckets (wr (NextLoc a) v s) = buckets s" "buckets (wr (BucketLoc i) v s) = (buckets s)(i := v)"
  "buckets (tracker_start_op tid s) = buckets s"
  "buckets (clwb_Node p s) = buckets s" "buckets (clwb_MarkPtr loc s) = buckets s" "buckets (sfence s) = buckets s"
  by (simp_all add: wr_def Let_def tracker_start_op_def log_event_def clwb_Node_def clwb_MarkPtr_def sfence_def)








subsection \<open>Persistence before the return\<close>




subsection \<open>Requests to the transient allocator\<close>

lemma served_same: "tr_null s' = tr_null s \<Longrightarrow> served s s'"
  unfolding served_def by (rule exI[of _ 0]) simp


lemma served_cong: "tr_null s1 = tr_null s \<Longrightarrow> served s1 s' = served s s'"
  "tr_null s2 = tr_null s' \<Longrightarrow> served s s2 = served s s'"
  by (simp_all add: served_def)

lemma tr_null_simps [simp]:
  "tr_null (log_event e s) = tr_null s" "tr_null (wr loc v s) = tr_null s" "tr_null (interfere s) = tr_null s"
  "tr_null (clwb_Node p s) = tr_null s" "tr_null (clwb_MarkPtr loc s) = tr_null s" "tr_null (sfence s) = tr_null s"
  "tr_null (tracker_start_op tid s) = tr_null s" "tr_null (tracker_end_op tid s) = tr_null s"
  "tr_null (tracker_retire p tid s) = tr_null s" "tr_null (atomic_store loc v s) = tr_null s"
  "tr_null (delete_Node p s) = tr_null s"
  by (simp_all add: log_event_def wr_def Let_def interfere_def clwb_Node_def clwb_MarkPtr_def sfence_def
      tracker_start_op_def tracker_end_op_def tracker_retire_def atomic_store_def delete_Node_def
      Node_operator_delete_def RP_free_def string_destroy_def deallocate_def
      split: MarkPtrLoc.splits list.splits prod.splits)







lemma string_copy_cases:
  "(\<exists>s1. string_copy str s = Return () s1 \<and> served s s1 \<and> pm s1 = pm s) \<or>
   (\<exists>s1. string_copy str s = Throw_bad_alloc s1)"
proof (cases "length str > local_capacity")
  case False
  then show ?thesis by (simp add: string_copy_def served_same)
next
  case True
  show ?thesis
  proof (cases "tr_null s")
    case Nil
    with True show ?thesis by (simp add: string_copy_def transient_new_def served_same)
  next
    case (Cons b bs)
    show ?thesis
    proof (cases b)
      case True
      with Cons \<open>length str > local_capacity\<close> show ?thesis by (simp add: string_copy_def transient_new_def)
    next
      case False
      have "served s (s\<lparr>tr_null := bs\<rparr>)"
        unfolding served_def using Cons False by (intro exI[of _ 1]) simp
      with Cons False \<open>length str > local_capacity\<close> show ?thesis
        by (simp add: string_copy_def transient_new_def pm_def)
    qed
  qed
qed

lemma string_copy_Return: "string_copy str s = Return u s1 \<Longrightarrow> served s s1"
  using string_copy_cases[of str s] by auto

lemma string_copy_no_Exit: "string_copy str s \<noteq> Exit c"
  using string_copy_cases[of str s] by auto


subsection \<open>No loop swallows a null\<close>

lemma propagated_simps [simp]:
  "propagated s (Return r s') = served s s'" "propagated s (Throw_bad_alloc s')" "\<not> propagated s (Exit c)"
  by (simp_all add: propagated_def)













subsection \<open>Exhaustion of the persistent allocator\<close>

















subsection \<open>Sequential runs on a well-formed table\<close>

lemma getPtr_unmarked: "\<not> getMark p \<Longrightarrow> getPtr p = p"
  unfolding getPtr_def getMark_def MARK_MASK_def
  by (metis (mono_tags, lifting) and.commute and.right_neutral bit.conj_disj_distrib2 bit.disj_cancel_left or.right_neutral)

lemma getMark_getPtr [simp]: "\<not> getMark (getPtr p)"
  by (simp add: getPtr_def getMark_def MARK_MASK_def and.assoc)

lemma getPtr_idem [simp]: "getPtr (getPtr p) = getPtr p"
  by (simp add: getPtr_unmarked)

lemma getMark_setMark [simp]: "getMark (setMark p)"
  by (simp add: getMark_def setMark_def mixPtrMark_def bit.conj_disj_distrib2)

lemma getPtr_0 [simp]: "getPtr 0 = 0"
  by (simp add: getPtr_def)

lemma aligned_iff: "getPtr p = p \<longleftrightarrow> \<not> getMark p"
  using getPtr_unmarked getMark_getPtr by metis


lemma log_event_fields [simp]:
  "rp_avail (log_event e s) = rp_avail s" "retired (log_event e s) = retired s"
  "sched (log_event e s) = sched s" "hist (log_event e s) = hist s"
  by (simp_all add: log_event_def)

lemma ld_log [simp]: "ld loc (log_event e s) = ld loc s"
  by (simp add: ld_def split: MarkPtrLoc.splits)

lemma wr_fields [simp]:
  "rp_avail (wr loc v s) = rp_avail s" "retired (wr loc v s) = retired s" "sched (wr loc v s) = sched s"
  "trace (wr loc v s) = trace s"
  by (simp_all add: wr_def Let_def split: MarkPtrLoc.splits)

lemma heap_wr: "heap (wr loc v s) = (case loc of BucketLoc i \<Rightarrow> heap s | NextLoc a \<Rightarrow> (heap s)(a := (heap s a)\<lparr>Node_next := v\<rparr>))"
  and buckets_wr: "buckets (wr loc v s) = (case loc of BucketLoc i \<Rightarrow> (buckets s)(i := v) | NextLoc a \<Rightarrow> buckets s)"
  by (simp_all add: wr_def Let_def split: MarkPtrLoc.splits)

lemma ld_wr [simp]: "ld loc (wr loc' v s) = (if loc = loc' then v else ld loc s)"
  by (auto simp: ld_def wr_def Let_def split: MarkPtrLoc.splits)

lemma misc_fields [simp]:
  "rp_avail (clwb_Node p s) = rp_avail s" "retired (clwb_Node p s) = retired s" "sched (clwb_Node p s) = sched s"
  "rp_avail (clwb_MarkPtr loc s) = rp_avail s" "retired (clwb_MarkPtr loc s) = retired s" "sched (clwb_MarkPtr loc s) = sched s"
  "rp_avail (sfence s) = rp_avail s" "retired (sfence s) = retired s" "sched (sfence s) = sched s"
  "buckets (clwb_Node p s) = buckets s" "buckets (clwb_MarkPtr loc s) = buckets s" "buckets (sfence s) = buckets s"
  "ld l (clwb_Node p s) = ld l s" "ld l (clwb_MarkPtr loc s) = ld l s" "ld l (sfence s) = ld l s"
  by (simp_all add: clwb_Node_def clwb_MarkPtr_def sfence_def)

lemma retire_fields [simp]:
  "rp_avail (tracker_retire p tid s) = rp_avail s" "retired (tracker_retire p tid s) = retired s @ [p]"
  "sched (tracker_retire p tid s) = sched s" "heap (tracker_retire p tid s) = heap s"
  "buckets (tracker_retire p tid s) = buckets s" "ld l (tracker_retire p tid s) = ld l s"
  by (simp_all add: tracker_retire_def ld_def split: MarkPtrLoc.splits)

lemma op_fields [simp]:
  "rp_avail (tracker_start_op tid s) = rp_avail s" "retired (tracker_start_op tid s) = retired s"
  "sched (tracker_start_op tid s) = sched s" "heap (tracker_start_op tid s) = heap s"
  "buckets (tracker_start_op tid s) = buckets s"
  "rp_avail (tracker_end_op tid s) = rp_avail s" "retired (tracker_end_op tid s) = retired s"
  "sched (tracker_end_op tid s) = sched s" "heap (tracker_end_op tid s) = heap s"
  "buckets (tracker_end_op tid s) = buckets s"
  by (simp_all add: tracker_start_op_def tracker_end_op_def)




lemma compare_str_simps:
  "compare_str a b = 0 \<longleftrightarrow> a = b" "compare_str a b > 0 \<longleftrightarrow> b < a" "compare_str a b < 0 \<longleftrightarrow> a < b"
  by (auto simp: compare_str_def)

text \<open>Chains.\<close>

lemma chain_null [simp]: "chain h 0 as \<longleftrightarrow> as = []"
  by (cases as) auto

lemma chain_cong:
  "(\<And>a. a \<in> set as \<Longrightarrow> getPtr (Node_next (h' a)) = getPtr (Node_next (h a))) \<Longrightarrow> chain h' p as = chain h p as"
  by (induction as arbitrary: p) auto


lemma heap_wr_simps [simp]:
  "heap (wr (BucketLoc i) v s) = heap s"
  "heap (wr (NextLoc a) v s) = (heap s)(a := (heap s a)\<lparr>Node_next := v\<rparr>)"
  "buckets (wr (BucketLoc i) v s) = (buckets s)(i := v)"
  "buckets (wr (NextLoc a) v s) = buckets s"
  by (simp_all add: heap_wr buckets_wr)

lemma ld_simps [simp]:
  "ld (BucketLoc i) s = buckets s i" "ld (NextLoc a) s = Node_next (heap s a)"
  by (simp_all add: ld_def)

lemma chain_upd_other: "b \<notin> set as \<Longrightarrow> chain (h(b := x)) p as = chain h p as"
  by (rule chain_cong) auto





lemma unlinked_fields [simp]:
  "sched (unlinked prev cur tid s) = sched s" "rp_avail (unlinked prev cur tid s) = rp_avail s"
  "retired (unlinked prev cur tid s) = retired s @ [cur]"
  by (cases prev; simp add: unlinked_def)+


lemma same_fields_refl [simp]: "same_fields h h"
  by (simp add: same_fields_def)







lemma getMark_0 [simp]: "\<not> getMark 0"
  by (simp add: getMark_def)


lemma chain_nonnull: "chain h p as \<Longrightarrow> 0 \<notin> set as"
  by (induction as arbitrary: p) auto

lemma chain_hd: "chain h p as \<Longrightarrow> p = (if as = [] then 0 else hd as)"
  by (cases as) auto

lemma chain_splice:
  assumes "chain h p (kept @ rest)" "distinct kept"
    "\<forall>a\<in>set (butlast kept). getPtr (Node_next (h' a)) = getPtr (Node_next (h a))"
    "kept \<noteq> [] \<Longrightarrow> getPtr (Node_next (h' (last kept))) = v \<and> p' = p"
    "kept = [] \<Longrightarrow> p' = v"
    "chain h' v new"
  shows "chain h' p' (kept @ new)"
  using assms
proof (induction kept arbitrary: p p')
  case Nil
  then show ?case by simp
next
  case (Cons a kept)
  show ?case
  proof (cases "kept = []")
    case True
    with Cons.prems show ?thesis by simp
  next
    case False
    have "chain h' (getPtr (Node_next (h a))) (kept @ new)"
      using Cons.prems False by (intro Cons.IH) auto
    moreover have "getPtr (Node_next (h' a)) = getPtr (Node_next (h a))"
      using Cons.prems False by simp
    ultimately show ?thesis using Cons.prems by simp
  qed
qed

lemma live_append [simp]: "live h (xs @ ys) = live h xs @ live h ys"
  by (simp add: live_def)


lemma live_live [simp]: "live h (live h as) = live h as"
  by (simp add: live_def)




lemma entries_append [simp]: "entries h (xs @ ys) = entries h xs @ entries h ys"
  by (simp add: entries_def)

lemma entries_live [simp]: "entries h (live h as) = entries h as"
  by (simp add: entries_def)









lemma end_op_state [simp]:
  "trace (tracker_end_op tid s) = trace s @ [End_op tid]"
  by (simp add: tracker_end_op_def log_event_def)
















section \<open>Properties of the graph\<close>

lemma in_range_nth_update:
  "in_range g i \<Longrightarrow> in_range g j \<Longrightarrow> (g[nat i := x]) ! nat j = (if j = i then x else g ! nat j)"
  by (auto simp: in_range_def nth_list_update)

lemma in_range_update [simp]: "in_range (g[n := x]) i = in_range g i"
  by (simp add: in_range_def)

lemma in_range_simps [simp]:
  "in_range (set_vertex i v g) j = in_range g j"
  "in_range (unlock i g) j = in_range g j"
  "in_range (inc_seq i g) j = in_range g j"
  "in_range (set_source i S g) j = in_range g j"
  "in_range (set_destination i S g) j = in_range g j"
  by (simp_all add: set_vertex_def unlock_def inc_seq_def set_source_def set_destination_def)

lemma length_simps [simp]:
  "length (set_vertex i v g) = length g"
  "length (unlock i g) = length g"
  "length (inc_seq i g) = length g"
  "length (set_source i S g) = length g"
  "length (set_destination i S g) = length g"
  by (simp_all add: set_vertex_def unlock_def inc_seq_def set_source_def set_destination_def)

lemma graph_eqI:
  assumes "length g = length g'"
    and "\<And>i. in_range g i \<Longrightarrow> vertex g i = vertex g' i \<and> locked g i = locked g' i \<and> get_seq g i = get_seq g' i"
  shows "g = g'"
proof (rule nth_equalityI)
  show "length g = length g'" by fact
next
  fix n assume "n < length g"
  then have "in_range g (int n)" by (simp add: in_range_def)
  from assms(2)[OF this] show "g ! n = g' ! n"
    by (simp add: vertex_def locked_def get_seq_def VertexMeta.equality)
qed

lemma set_vertex_obs [simp]:
  assumes "in_range g i" "in_range g j"
  shows "vertex (set_vertex i v g) j = (if j = i then v else vertex g j)"
    "locked (set_vertex i v g) j = locked g j"
    "get_seq (set_vertex i v g) j = get_seq g j"
  using assms by (simp_all add: set_vertex_def vertex_def locked_def get_seq_def in_range_nth_update)

lemma unlock_obs [simp]:
  assumes "in_range g i" "in_range g j"
  shows "vertex (unlock i g) j = vertex g j"
    "locked (unlock i g) j = (j \<noteq> i \<and> locked g j)"
    "get_seq (unlock i g) j = get_seq g j"
  using assms by (simp_all add: unlock_def vertex_def locked_def get_seq_def in_range_nth_update)

lemma inc_seq_obs [simp]:
  assumes "in_range g i" "in_range g j"
  shows "vertex (inc_seq i g) j = vertex g j"
    "locked (inc_seq i g) j = locked g j"
    "get_seq (inc_seq i g) j = (if j = i then get_seq g i + 1 else get_seq g j)"
  using assms by (simp_all add: inc_seq_def vertex_def locked_def get_seq_def in_range_nth_update)

lemma lock_cases:
  "lock i g = (if \<not> in_range g i then Inl Out_of_bounds else if locked g i then Inl Deadlock
     else Inr (g[nat i := (g ! nat i)\<lparr>vertexLocks := True\<rparr>]))"
  by (simp add: lock_def locked_def)

lemma lock_eq: "lock i g = (if \<not> in_range g i then Inl Out_of_bounds else if locked g i then Inl Deadlock
     else Inr (set_locked i g))"
  by (simp add: lock_def locked_def set_locked_def)

lemma set_locked_obs [simp]:
  assumes "in_range g i" "in_range g j"
  shows "vertex (set_locked i g) j = vertex g j"
    "locked (set_locked i g) j = (j = i \<or> locked g j)"
    "get_seq (set_locked i g) j = get_seq g j"
  using assms by (simp_all add: set_locked_def vertex_def locked_def get_seq_def in_range_nth_update)

lemma set_locked_range [simp]: "in_range (set_locked i g) j = in_range g j" "length (set_locked i g) = length g"
  by (simp_all add: set_locked_def)

lemma source_obs: "source g i = (case vertex g i of None \<Rightarrow> [] | Some v \<Rightarrow> adjacency_list v)"
  by (simp add: source_def)

lemma set_source_obs [simp]:
  assumes "in_range g i" "in_range g j"
  shows "vertex (set_source i S g) j = (if j = i then map_option (\<lambda>v. v\<lparr>adjacency_list := S\<rparr>) (vertex g i) else vertex g j)"
    "locked (set_source i S g) j = locked g j"
    "get_seq (set_source i S g) j = get_seq g j"
  using assms by (simp_all add: set_source_def)

lemma set_destination_obs [simp]:
  assumes "in_range g i" "in_range g j"
  shows "vertex (set_destination i S g) j = (if j = i then map_option (\<lambda>v. v\<lparr>dest_list := S\<rparr>) (vertex g i) else vertex g j)"
    "locked (set_destination i S g) j = locked g j"
    "get_seq (set_destination i S g) j = get_seq g j"
  using assms by (simp_all add: set_destination_def)

lemma unlock_set_locked: "in_range g i \<Longrightarrow> \<not> locked g i \<Longrightarrow> unlock i (set_locked i g) = g"
  by (rule graph_eqI) auto

lemma source_simps [simp]:
  assumes "in_range g i" "in_range g j"
  shows "source (set_source i S g) j = (if j = i \<and> vertex g i \<noteq> None then S else source g j)"
    "source (set_destination i S g) j = source g j"
    "source (set_locked i g) j = source g j"
    "source (unlock i g) j = source g j"
    "source (inc_seq i g) j = source g j"
    "source (set_vertex i v g) j = (if j = i then (case v of None \<Rightarrow> [] | Some x \<Rightarrow> adjacency_list x) else source g j)"
  using assms by (auto simp: source_def split: option.splits)

lemma destination_simps [simp]:
  assumes "in_range g i" "in_range g j"
  shows "destination (set_destination i S g) j = (if j = i \<and> vertex g i \<noteq> None then S else destination g j)"
    "destination (set_source i S g) j = destination g j"
    "destination (set_locked i g) j = destination g j"
    "destination (unlock i g) j = destination g j"
    "destination (inc_seq i g) j = destination g j"
    "destination (set_vertex i v g) j = (if j = i then (case v of None \<Rightarrow> [] | Some x \<Rightarrow> dest_list x) else destination g j)"
  using assms by (auto simp: destination_def split: option.splits)

lemma source_absent [simp]: "vertex g i = None \<Longrightarrow> source g i = []"
  and destination_absent [simp]: "vertex g i = None \<Longrightarrow> destination g i = []"
  by (simp_all add: source_def destination_def)

text \<open>The effect of a run of locks and of a run of unlocks.\<close>

lemma lock_all_result:
  assumes "\<forall>u\<in>set us. in_range g u \<and> \<not> locked g u" "distinct us"
  shows "\<exists>g'. lock_all us g = Inr g' \<and> length g' = length g \<and>
     (\<forall>j. in_range g j \<longrightarrow> vertex g' j = vertex g j \<and> get_seq g' j = get_seq g j \<and>
        locked g' j = (j \<in> set us \<or> locked g j))"
  using assms
proof (induction us arbitrary: g)
  case Nil
  then show ?case by simp
next
  case (Cons u us)
  have step: "lock u g = Inr (set_locked u g)" using Cons.prems by (simp add: lock_eq)
  have "\<forall>x\<in>set us. in_range (set_locked u g) x \<and> \<not> locked (set_locked u g) x"
    using Cons.prems by auto
  from Cons.IH[OF this] Cons.prems obtain g' where
    g': "lock_all us (set_locked u g) = Inr g'" "length g' = length g"
    "\<forall>j. in_range g j \<longrightarrow> vertex g' j = vertex (set_locked u g) j \<and> get_seq g' j = get_seq (set_locked u g) j \<and>
        locked g' j = (j \<in> set us \<or> locked (set_locked u g) j)"
    by auto
  show ?case
    using g' Cons.prems by (auto simp: step)
qed

lemma lock_all_failure:
  assumes "lock_all us g = Inr g'"
  shows "(\<forall>u\<in>set us. in_range g u \<and> \<not> locked g u) \<and> distinct us"
  using assms
proof (induction us arbitrary: g)
  case Nil
  then show ?case by simp
next
  case (Cons u us)
  from Cons.prems have u: "in_range g u" "\<not> locked g u" and rest: "lock_all us (set_locked u g) = Inr g'"
    by (auto simp: lock_eq split: if_splits)
  from Cons.IH[OF rest] have "\<forall>x\<in>set us. in_range g x \<and> \<not> locked (set_locked u g) x" "distinct us"
    by auto
  then show ?case using u by auto
qed

lemma unlock_all_result:
  assumes "\<forall>u\<in>set us. in_range g u"
  shows "length (unlock_all us g) = length g \<and>
     (\<forall>j. in_range g j \<longrightarrow> vertex (unlock_all us g) j = vertex g j \<and> get_seq (unlock_all us g) j = get_seq g j \<and>
        locked (unlock_all us g) j = (j \<notin> set us \<and> locked g j))"
  using assms
proof (induction us arbitrary: g)
  case Nil
  then show ?case by simp
next
  case (Cons u us)
  have "\<forall>x\<in>set us. in_range (unlock u g) x" using Cons.prems by simp
  from Cons.IH[OF this] show ?case using Cons.prems by auto
qed

lemma Set_find_None: "Set_find S k = None \<longleftrightarrow> (\<forall>x\<in>set S. \<not> RelationEqual x k)"
  by (auto simp: Set_find_def find_None_iff)

lemma Set_find_Some: "Set_find S k = Some x \<Longrightarrow> x \<in> set S \<and> RelationEqual x k"
  by (auto simp: Set_find_def find_Some_iff)

lemma has_relation_iff: "has_relation S k \<longleftrightarrow> (\<exists>x\<in>set S. RelationEqual x k)"
  by (auto simp: has_relation_def Set_find_None)

lemma lock_order_locks:
  assumes "src \<noteq> dest" "in_range g src" "in_range g dest" "\<not> locked g src" "\<not> locked g dest"
  shows "lock_all (lock_order src dest) g = Inr (set_locked dest (set_locked src g))"
  using assms by (auto simp: lock_order_def lock_eq intro!: graph_eqI)

lemma lock_order_unlocks:
  assumes "src \<noteq> dest" "in_range h src" "in_range h dest"
  shows "unlock_all (rev (lock_order src dest)) h = unlock src (unlock dest h)"
  using assms by (auto simp: lock_order_def intro!: graph_eqI)

lemma add_edge_result:
  fixes weight :: int
  assumes ne: "src \<noteq> dest" and rng: "in_range g src" "in_range g dest"
    and free: "\<not> locked g src" "\<not> locked g dest"
    and pres: "vertex g src \<noteq> None" "vertex g dest \<noteq> None"
    and absent: "\<not> has_relation (source g src) (edge src dest)" "\<not> has_relation (destination g dest) (edge src dest)"
  defines "r \<equiv> \<lparr>Relation_src = src, Relation_dest = dest, Relation_weight = weight\<rparr>"
  shows "\<exists>g'. add_edge src dest weight g = Inr (True, g') \<and> length g' = length g \<and>
     (\<forall>j. in_range g j \<longrightarrow>
        source g' j = (if j = src then source g src @ [r] else source g j) \<and>
        destination g' j = (if j = dest then destination g dest @ [r] else destination g j) \<and>
        locked g' j = locked g j \<and>
        get_seq g' j = (if j = src \<or> j = dest then get_seq g j + 1 else get_seq g j) \<and>
        (vertex g' j = None \<longleftrightarrow> vertex g j = None) \<and>
        (j \<noteq> src \<and> j \<noteq> dest \<longrightarrow> vertex g' j = vertex g j))"
proof -
  have key: "Set_find S r = Set_find S (edge src dest)" for S
    by (simp add: Set_find_def RelationEqual_def edge_def r_def)
  have none: "Set_find (source g src) (edge src dest) = None" "Set_find (destination g dest) (edge src dest) = None"
    using absent by (simp_all add: has_relation_def)
  show ?thesis
    unfolding add_edge_def r_def[symmetric] Let_def
    using ne rng free pres absent none
    by (auto simp: lock_order_locks lock_order_unlocks has_relation_def key Set_insert_def)
qed

lemma add_edge_refused:
  assumes "src \<noteq> dest \<longrightarrow> in_range g src \<and> in_range g dest \<and> \<not> locked g src \<and> \<not> locked g dest"
    and "has_relation (source g src) (edge src dest) \<longrightarrow> has_relation (destination g dest) (edge src dest)"
    and "src = dest \<or> vertex g src = None \<or> vertex g dest = None \<or> has_relation (source g src) (edge src dest)"
  shows "add_edge src dest weight g = Inr (False, g)"
proof (cases "src = dest")
  case True
  then show ?thesis by (simp add: add_edge_def)
next
  case False
  let ?r = "\<lparr>Relation_src = src, Relation_dest = dest, Relation_weight = weight\<rparr>"
  have key: "has_relation S ?r = has_relation S (edge src dest)" for S
    by (simp add: has_relation_def Set_find_def RelationEqual_def edge_def)
  have "unlock src (unlock dest (set_locked dest (set_locked src g))) = g"
    using False assms(1) by (auto intro!: graph_eqI)
  then show ?thesis
    using False assms
    by (auto simp: add_edge_def Let_def lock_order_locks lock_order_unlocks key)
qed

lemma in_range_length: "length g' = length g \<Longrightarrow> in_range g' i = in_range g i"
  by (simp add: in_range_def)

lemma graph_inv_symmetric:
  assumes "graph_inv g" "in_range g u" "in_range g v"
  shows "has_relation (source g u) (edge u v) = has_relation (destination g v) (edge u v)"
proof -
  have "(\<exists>x\<in>set (source g u). Relation_dest x = v) \<longleftrightarrow> (\<exists>x\<in>set (destination g v). Relation_src x = u)"
    using assms unfolding graph_inv_def by metis
  moreover have "\<forall>x\<in>set (source g u). Relation_src x = u" "\<forall>x\<in>set (destination g v). Relation_dest x = v"
    using assms unfolding graph_inv_def by auto
  ultimately show ?thesis
    by (auto simp: has_relation_iff RelationEqual_def edge_def)
qed

lemma add_edge_inv:
  assumes inv: "graph_inv g" and rng: "in_range g src" "in_range g dest"
  shows "\<exists>b g'. add_edge src dest weight g = Inr (b, g') \<and> graph_inv g' \<and> length g' = length g"
proof (cases "src = dest \<or> vertex g src = None \<or> vertex g dest = None \<or> has_relation (source g src) (edge src dest)")
  case True
  have "add_edge src dest weight g = Inr (False, g)"
    using add_edge_refused[of src dest g weight] True inv rng graph_inv_symmetric[OF inv rng]
    by (auto simp: graph_inv_def)
  then show ?thesis using inv by auto
next
  case False
  define r where "r = \<lparr>Relation_src = src, Relation_dest = dest, Relation_weight = weight\<rparr>"
  have free: "\<not> locked g src" "\<not> locked g dest" using inv rng by (auto simp: graph_inv_def)
  have absent: "\<not> has_relation (destination g dest) (edge src dest)"
    using False graph_inv_symmetric[OF inv rng] by simp
  have "\<exists>g'. add_edge src dest weight g = Inr (True, g') \<and> length g' = length g \<and>
     (\<forall>j. in_range g j \<longrightarrow>
        source g' j = (if j = src then source g src @ [r] else source g j) \<and>
        destination g' j = (if j = dest then destination g dest @ [r] else destination g j) \<and>
        locked g' j = locked g j \<and>
        get_seq g' j = (if j = src \<or> j = dest then get_seq g j + 1 else get_seq g j) \<and>
        (vertex g' j = None \<longleftrightarrow> vertex g j = None) \<and>
        (j \<noteq> src \<and> j \<noteq> dest \<longrightarrow> vertex g' j = vertex g j))"
    unfolding r_def using False rng free absent by (intro add_edge_result) auto
  then obtain g' where g': "add_edge src dest weight g = Inr (True, g')" "length g' = length g"
    and obs0: "\<forall>j. in_range g j \<longrightarrow>
        source g' j = (if j = src then source g src @ [r] else source g j) \<and>
        destination g' j = (if j = dest then destination g dest @ [r] else destination g j) \<and>
        locked g' j = locked g j \<and>
        get_seq g' j = (if j = src \<or> j = dest then get_seq g j + 1 else get_seq g j) \<and>
        (vertex g' j = None \<longleftrightarrow> vertex g j = None) \<and>
        (j \<noteq> src \<and> j \<noteq> dest \<longrightarrow> vertex g' j = vertex g j)"
    by blast
  have obs: "source g' j = (if j = src then source g src @ [r] else source g j) \<and>
        destination g' j = (if j = dest then destination g dest @ [r] else destination g j) \<and>
        locked g' j = locked g j" if "in_range g j" for j
    using obs0 that by blast
  have rg: "in_range g' i = in_range g i" for i by (rule in_range_length[OF g'(2)])
  have nosrc: "\<forall>x\<in>set (source g src). Relation_dest x \<noteq> dest"
    using False inv rng by (auto simp: has_relation_iff RelationEqual_def edge_def graph_inv_def)
  have nodst: "\<forall>x\<in>set (destination g dest). Relation_src x \<noteq> src"
    using absent inv rng by (auto simp: has_relation_iff RelationEqual_def edge_def graph_inv_def)
  have "graph_inv g'"
    unfolding graph_inv_def
  proof (intro conjI allI impI)
    fix i assume i: "in_range g' i"
    then have gi: "in_range g i" by (simp add: rg)
    show "\<not> locked g' i" using obs[OF gi] inv gi by (simp add: graph_inv_def)
    show "\<forall>x\<in>set (source g' i). Relation_src x = i \<and> Relation_dest x \<noteq> i \<and> in_range g' (Relation_dest x)"
      using obs[OF gi] inv gi rng False by (auto simp: graph_inv_def rg r_def)
    show "\<forall>x\<in>set (destination g' i). Relation_dest x = i \<and> Relation_src x \<noteq> i \<and> in_range g' (Relation_src x)"
      using obs[OF gi] inv gi rng False by (auto simp: graph_inv_def rg r_def)
    show "distinct (map Relation_dest (source g' i))"
      using obs[OF gi] inv gi nosrc by (auto simp: graph_inv_def r_def)
    show "distinct (map Relation_src (destination g' i))"
      using obs[OF gi] inv gi nodst by (auto simp: graph_inv_def r_def)
  next
    fix x :: Relation
    assume "in_range g' (Relation_src x) \<and> in_range g' (Relation_dest x)"
    then have x: "in_range g (Relation_src x)" "in_range g (Relation_dest x)" by (simp_all add: rg)
    have old: "x \<in> set (source g (Relation_src x)) \<longleftrightarrow> x \<in> set (destination g (Relation_dest x))"
      using inv x unfolding graph_inv_def by blast
    have s: "\<forall>y\<in>set (source g src). Relation_src y = src" and d: "\<forall>y\<in>set (destination g dest). Relation_dest y = dest"
      using inv rng by (auto simp: graph_inv_def)
    have l: "x \<in> set (source g' (Relation_src x)) \<longleftrightarrow> x = r \<or> x \<in> set (source g (Relation_src x))"
      using obs[OF x(1)] by (auto simp: r_def)
    have rr: "x \<in> set (destination g' (Relation_dest x)) \<longleftrightarrow> x = r \<or> x \<in> set (destination g (Relation_dest x))"
      using obs[OF x(2)] by (auto simp: r_def)
    show "x \<in> set (source g' (Relation_src x)) \<longleftrightarrow> x \<in> set (destination g' (Relation_dest x))"
      unfolding l rr using old by simp
  qed
  then show ?thesis using g' by blast
qed

lemma inv_unlocked: "graph_inv g \<Longrightarrow> in_range g i \<Longrightarrow> \<not> locked g i"
  and inv_source: "graph_inv g \<Longrightarrow> in_range g i \<Longrightarrow> r \<in> set (source g i) \<Longrightarrow>
      Relation_src r = i \<and> Relation_dest r \<noteq> i \<and> in_range g (Relation_dest r)"
  and inv_destination: "graph_inv g \<Longrightarrow> in_range g i \<Longrightarrow> r \<in> set (destination g i) \<Longrightarrow>
      Relation_dest r = i \<and> Relation_src r \<noteq> i \<and> in_range g (Relation_src r)"
  and inv_distinct_source: "graph_inv g \<Longrightarrow> in_range g i \<Longrightarrow> distinct (map Relation_dest (source g i))"
  and inv_distinct_destination: "graph_inv g \<Longrightarrow> in_range g i \<Longrightarrow> distinct (map Relation_src (destination g i))"
  and inv_sym: "graph_inv g \<Longrightarrow> in_range g (Relation_src r) \<Longrightarrow> in_range g (Relation_dest r) \<Longrightarrow>
      r \<in> set (source g (Relation_src r)) \<longleftrightarrow> r \<in> set (destination g (Relation_dest r))"
  unfolding graph_inv_def by blast+

lemma distinct_map_eq: "distinct (map f xs) \<Longrightarrow> x \<in> set xs \<Longrightarrow> y \<in> set xs \<Longrightarrow> f x = f y \<Longrightarrow> x = y"
  by (meson distinct_map inj_onD)

lemma graph_inv_find:
  assumes inv: "graph_inv g" and u: "in_range g u" and v: "in_range g v"
  shows "Set_find (source g u) (edge u v) = Set_find (destination g v) (edge u v)"
proof (cases "Set_find (source g u) (edge u v)")
  case None
  show ?thesis
  proof (cases "Set_find (destination g v) (edge u v)")
    case None
    with \<open>Set_find (source g u) (edge u v) = None\<close> show ?thesis by simp
  next
    case (Some y)
    from Set_find_Some[OF Some] have y: "y \<in> set (destination g v)" "Relation_src y = u" "Relation_dest y = v"
      by (simp_all add: RelationEqual_def edge_def)
    with inv_sym[OF inv, of y] u v have "y \<in> set (source g u)" by simp
    with None y show ?thesis by (auto simp: Set_find_None RelationEqual_def edge_def)
  qed
next
  case (Some x)
  from Set_find_Some[OF Some] have x: "x \<in> set (source g u)" "Relation_src x = u" "Relation_dest x = v"
    by (simp_all add: RelationEqual_def edge_def)
  with inv_sym[OF inv, of x] u v have xd: "x \<in> set (destination g v)" by simp
  then obtain y where y: "Set_find (destination g v) (edge u v) = Some y"
    using x by (cases "Set_find (destination g v) (edge u v)") (auto simp: Set_find_None RelationEqual_def edge_def)
  from Set_find_Some[OF y] have "y \<in> set (destination g v)" "Relation_src y = u"
    by (simp_all add: RelationEqual_def edge_def)
  with xd x have "y = x"
    using distinct_map_eq[OF inv_distinct_destination[OF inv v]] by metis
  with Some y show ?thesis by simp
qed

lemma set_source_same [simp]: "in_range g i \<Longrightarrow> set_source i (source g i) g = g"
  by (rule graph_eqI) (auto simp: source_def split: option.splits)

lemma set_destination_same [simp]: "in_range g i \<Longrightarrow> set_destination i (destination g i) g = g"
  by (rule graph_eqI) (auto simp: destination_def split: option.splits)

lemma remove_edge_result:
  assumes ne: "src \<noteq> dest" and rng: "in_range g src" "in_range g dest"
    and free: "\<not> locked g src" "\<not> locked g dest"
    and pres: "vertex g src \<noteq> None" "vertex g dest \<noteq> None"
    and found: "Set_find (source g src) (edge src dest) = Some x" "Set_find (destination g dest) (edge src dest) = Some x"
  shows "\<exists>g'. remove_edge src dest g = Inr (True, g') \<and> length g' = length g \<and>
     (\<forall>j. in_range g j \<longrightarrow>
        source g' j = (if j = src then remove1 x (source g src) else source g j) \<and>
        destination g' j = (if j = dest then remove1 x (destination g dest) else destination g j) \<and>
        locked g' j = locked g j \<and>
        get_seq g' j = (if j = src \<or> j = dest then get_seq g j + 1 else get_seq g j) \<and>
        (vertex g' j = None \<longleftrightarrow> vertex g j = None))"
  unfolding remove_edge_def Let_def edge_def[symmetric]
  using ne rng free pres found
  by (auto simp: lock_order_locks lock_order_unlocks remove_relation_def)

lemma remove_edge_refused:
  assumes "src \<noteq> dest \<longrightarrow> in_range g src \<and> in_range g dest \<and> \<not> locked g src \<and> \<not> locked g dest"
    and "Set_find (source g src) (edge src dest) = Set_find (destination g dest) (edge src dest)"
    and "src = dest \<or> vertex g src = None \<or> vertex g dest = None \<or> \<not> has_relation (source g src) (edge src dest)"
  shows "remove_edge src dest g = Inr (False, g)"
proof (cases "src = dest")
  case True
  then show ?thesis by (simp add: remove_edge_def)
next
  case False
  have "unlock src (unlock dest (set_locked dest (set_locked src g))) = g"
    using False assms(1) by (auto intro!: graph_eqI)
  moreover have "unlock src (unlock dest (set_destination dest (destination g dest)
       (set_source src (source g src) (set_locked dest (set_locked src g))))) = g"
    using False assms(1) by (auto intro!: graph_eqI simp: source_def destination_def split: option.splits)
  ultimately show ?thesis
    unfolding remove_edge_def Let_def edge_def[symmetric]
    using False assms
    by (auto simp: lock_order_locks lock_order_unlocks remove_relation_def has_relation_def)
qed

lemma distinct_map_remove1: "distinct (map f xs) \<Longrightarrow> distinct (map f (remove1 x xs))"
proof (induction xs)
  case Nil
  then show ?case by simp
next
  case (Cons a xs)
  have "f a \<notin> f ` set (remove1 x xs)" using Cons.prems set_remove1_subset[of x xs] by auto
  with Cons show ?case by auto
qed

lemma remove_edge_inv:
  assumes inv: "graph_inv g" and rng: "in_range g src" "in_range g dest"
  shows "\<exists>b g'. remove_edge src dest g = Inr (b, g') \<and> graph_inv g' \<and> length g' = length g"
proof (cases "src = dest \<or> vertex g src = None \<or> vertex g dest = None \<or> \<not> has_relation (source g src) (edge src dest)")
  case True
  have "remove_edge src dest g = Inr (False, g)"
    using True rng inv_unlocked[OF inv] graph_inv_find[OF inv rng]
    by (intro remove_edge_refused) auto
  then show ?thesis using inv by auto
next
  case False
  then obtain x where x: "Set_find (source g src) (edge src dest) = Some x"
    by (auto simp: has_relation_def)
  then have x': "Set_find (destination g dest) (edge src dest) = Some x"
    using graph_inv_find[OF inv rng] by simp
  have xs: "x \<in> set (source g src)" "Relation_src x = src" "Relation_dest x = dest"
    using Set_find_Some[OF x] by (simp_all add: RelationEqual_def edge_def)
  have "\<exists>g'. remove_edge src dest g = Inr (True, g') \<and> length g' = length g \<and>
     (\<forall>j. in_range g j \<longrightarrow>
        source g' j = (if j = src then remove1 x (source g src) else source g j) \<and>
        destination g' j = (if j = dest then remove1 x (destination g dest) else destination g j) \<and>
        locked g' j = locked g j \<and>
        get_seq g' j = (if j = src \<or> j = dest then get_seq g j + 1 else get_seq g j) \<and>
        (vertex g' j = None \<longleftrightarrow> vertex g j = None))"
    using False rng inv_unlocked[OF inv] x x' by (intro remove_edge_result) auto
  then obtain g' where g': "remove_edge src dest g = Inr (True, g')" "length g' = length g"
    and obs0: "\<forall>j. in_range g j \<longrightarrow>
        source g' j = (if j = src then remove1 x (source g src) else source g j) \<and>
        destination g' j = (if j = dest then remove1 x (destination g dest) else destination g j) \<and>
        locked g' j = locked g j \<and>
        get_seq g' j = (if j = src \<or> j = dest then get_seq g j + 1 else get_seq g j) \<and>
        (vertex g' j = None \<longleftrightarrow> vertex g j = None)"
    by blast
  have obs: "source g' j = (if j = src then remove1 x (source g src) else source g j) \<and>
        destination g' j = (if j = dest then remove1 x (destination g dest) else destination g j) \<and>
        locked g' j = locked g j" if "in_range g j" for j
    using obs0 that by blast
  have rg: "in_range g' i = in_range g i" for i by (rule in_range_length[OF g'(2)])
  have ds: "distinct (source g src)" "distinct (destination g dest)"
    using inv_distinct_source[OF inv rng(1)] inv_distinct_destination[OF inv rng(2)]
    by (auto simp: distinct_map)
  have "graph_inv g'"
    unfolding graph_inv_def
  proof (intro conjI allI impI)
    fix i assume i: "in_range g' i"
    then have gi: "in_range g i" by (simp add: rg)
    show "\<not> locked g' i" using obs[OF gi] inv_unlocked[OF inv gi] by simp
    show "\<forall>r\<in>set (source g' i). Relation_src r = i \<and> Relation_dest r \<noteq> i \<and> in_range g' (Relation_dest r)"
      using obs[OF gi] inv_source[OF inv gi] by (auto simp: rg dest: notin_set_remove1)
    show "\<forall>r\<in>set (destination g' i). Relation_dest r = i \<and> Relation_src r \<noteq> i \<and> in_range g' (Relation_src r)"
      using obs[OF gi] inv_destination[OF inv gi] by (auto simp: rg dest: notin_set_remove1)
    show "distinct (map Relation_dest (source g' i))"
      using obs[OF gi] inv_distinct_source[OF inv gi] by (auto simp: distinct_map_remove1)
    show "distinct (map Relation_src (destination g' i))"
      using obs[OF gi] inv_distinct_destination[OF inv gi] by (auto simp: distinct_map_remove1)
  next
    fix r :: Relation
    assume "in_range g' (Relation_src r) \<and> in_range g' (Relation_dest r)"
    then have r: "in_range g (Relation_src r)" "in_range g (Relation_dest r)" by (simp_all add: rg)
    have old: "r \<in> set (source g (Relation_src r)) \<longleftrightarrow> r \<in> set (destination g (Relation_dest r))"
      by (rule inv_sym[OF inv r])
    have l: "r \<in> set (source g' (Relation_src r)) \<longleftrightarrow> r \<noteq> x \<and> r \<in> set (source g (Relation_src r))"
      using obs[OF r(1)] ds xs by auto
    have rr: "r \<in> set (destination g' (Relation_dest r)) \<longleftrightarrow> r \<noteq> x \<and> r \<in> set (destination g (Relation_dest r))"
      using obs[OF r(2)] ds xs by auto
    show "r \<in> set (source g' (Relation_src r)) \<longleftrightarrow> r \<in> set (destination g' (Relation_dest r))"
      unfolding l rr using old by simp
  qed
  then show ?thesis using g' by blast
qed

lemma distinct_remdups_adj_sorted: "sorted (xs :: int list) \<Longrightarrow> distinct (remdups_adj xs)"
proof (induction xs rule: remdups_adj.induct)
  case (3 x y xs)
  show ?case
  proof (cases "x = y")
    case True
    with 3 show ?thesis by simp
  next
    case False
    have "x \<notin> set (y # xs)" using "3.prems" False by auto
    moreover have "remdups_adj (x # y # xs) = x # remdups_adj (y # xs)" using False by simp
    moreover have "distinct (remdups_adj (y # xs))" using 3 False by simp
    ultimately show ?thesis by (simp del: remdups_adj.simps)
  qed
qed simp_all

lemma sample_vec_props:
  "distinct (sample_vec samples vid)" "sorted (sample_vec samples vid)" "vid \<in> set (sample_vec samples vid)"
  by (simp_all add: sample_vec_def distinct_remdups_adj_sorted sorted_remdups_adj)

lemma collect_vertices_props:
  "distinct (collect_vertices g vid)" "sorted (collect_vertices g vid)"
  "set (collect_vertices g vid) = Relation_dest ` set (source g vid) \<union> Relation_src ` set (destination g vid) \<union> {vid}"
  by (auto simp: collect_vertices_def distinct_remdups_adj_sorted sorted_remdups_adj)

lemma graph_inv_cong:
  assumes "length g' = length g"
    and "\<And>j. in_range g j \<Longrightarrow> source g' j = source g j \<and> destination g' j = destination g j \<and> locked g' j = locked g j"
  shows "graph_inv g' = graph_inv g"
  unfolding graph_inv_def in_range_length[OF assms(1)]
  using assms(2) by (intro arg_cong2[where f = "(\<and>)"] all_cong imp_cong refl) auto

lemma link_new_vertex_result:
  assumes "in_range g vid" "vertex g vid \<noteq> None" "\<forall>u\<in>set us. in_range g u" "distinct us"
    and "\<forall>u\<in>set us. u \<noteq> vid \<longrightarrow> vertex g u \<noteq> None \<longrightarrow>
           \<not> has_relation (source g vid) (edge vid u) \<and> \<not> has_relation (destination g u) (edge vid u)"
  shows "length (link_new_vertex vid us g) = length g \<and>
     (\<forall>j. in_range g j \<longrightarrow>
        source (link_new_vertex vid us g) j =
          (if j = vid then source g vid @ map (edge vid) (filter (\<lambda>u. vertex g u \<noteq> None \<and> u \<noteq> vid) us)
           else source g j) \<and>
        destination (link_new_vertex vid us g) j =
          (if j \<in> set us \<and> j \<noteq> vid \<and> vertex g j \<noteq> None then destination g j @ [edge vid j]
           else destination g j) \<and>
        locked (link_new_vertex vid us g) j = locked g j \<and>
        get_seq (link_new_vertex vid us g) j = get_seq g j \<and>
        (vertex (link_new_vertex vid us g) j = None \<longleftrightarrow> vertex g j = None))"
  using assms
proof (induction us arbitrary: g)
  case Nil
  then show ?case by simp
next
  case (Cons u us)
  show ?case
  proof (cases "vertex g u = None \<or> u = vid")
    case True
    have "\<forall>u\<in>set us. in_range g u" "distinct us" using Cons.prems by auto
    from Cons.IH[OF Cons.prems(1,2) this] Cons.prems(5) True
    show ?thesis using True Cons.prems(4) by auto
  next
    case False
    define g2 where "g2 = set_destination u (fst (Set_insert (edge vid u) (destination g u)))
        (set_source vid (fst (Set_insert (edge vid u) (source g vid))) g)"
    have u: "in_range g u" "u \<noteq> vid" "vertex g u \<noteq> None" "u \<notin> set us" using Cons.prems False by auto
    have ins: "fst (Set_insert (edge vid u) (source g vid)) = source g vid @ [edge vid u]"
      "fst (Set_insert (edge vid u) (destination g u)) = destination g u @ [edge vid u]"
      using Cons.prems(5) u by (auto simp: Set_insert_def has_relation_def)
    obtain vu where vu: "vertex g u = Some vu" using u by auto
    have step: "link_new_vertex vid (u # us) g = link_new_vertex vid us g2"
      using vu u Cons.prems(1) by (simp add: g2_def Let_def edge_def)
    have g2: "length g2 = length g"
      "\<And>j. in_range g j \<Longrightarrow> source g2 j = (if j = vid then source g vid @ [edge vid u] else source g j)"
      "\<And>j. in_range g j \<Longrightarrow> destination g2 j = (if j = u then destination g u @ [edge vid u] else destination g j)"
      "\<And>j. in_range g j \<Longrightarrow> locked g2 j = locked g j \<and> get_seq g2 j = get_seq g j"
      "\<And>j. in_range g j \<Longrightarrow> vertex g2 j = None \<longleftrightarrow> vertex g j = None"
      using u Cons.prems(1,2) by (auto simp: g2_def ins)
    have rg: "in_range g2 i = in_range g i" for i by (rule in_range_length[OF g2(1)])
    have p1: "in_range g2 vid" "vertex g2 vid \<noteq> None" "\<forall>x\<in>set us. in_range g2 x" "distinct us"
      using Cons.prems g2(5) by (auto simp: rg)
    have p2: "\<forall>x\<in>set us. x \<noteq> vid \<longrightarrow> vertex g2 x \<noteq> None \<longrightarrow>
           \<not> has_relation (source g2 vid) (edge vid x) \<and> \<not> has_relation (destination g2 x) (edge vid x)"
      using Cons.prems u g2 by (auto simp: has_relation_iff RelationEqual_def edge_def)
    have flt: "filter (\<lambda>x. vertex g2 x \<noteq> None \<and> x \<noteq> vid) us = filter (\<lambda>x. vertex g x \<noteq> None \<and> x \<noteq> vid) us"
      using Cons.prems(3) g2(5) by (intro filter_cong) auto
    from Cons.IH[OF p1 p2] show ?thesis
      unfolding step flt using g2 u Cons.prems(1,2,3) by (auto simp: rg)
  qed
qed

lemma bump_and_unlock_result:
  assumes "in_range g vid" "\<forall>u\<in>set us. in_range g u" "distinct us"
  shows "length (bump_and_unlock vid us g) = length g \<and>
     (\<forall>j. in_range g j \<longrightarrow>
        vertex (bump_and_unlock vid us g) j = vertex g j \<and>
        locked (bump_and_unlock vid us g) j = (j \<notin> set us \<and> locked g j) \<and>
        get_seq (bump_and_unlock vid us g) j =
          (if j \<in> set us \<and> vertex g vid \<noteq> None \<and> vertex g j \<noteq> None then get_seq g j + 1 else get_seq g j))"
  using assms
proof (induction us arbitrary: g)
  case Nil
  then show ?case by simp
next
  case (Cons u us)
  define g1 where "g1 = unlock u (if vertex g vid \<noteq> None \<and> vertex g u \<noteq> None then inc_seq u g else g)"
  have g1: "length g1 = length g" "\<And>j. in_range g j \<Longrightarrow> vertex g1 j = vertex g j"
    "\<And>j. in_range g j \<Longrightarrow> locked g1 j = (j \<noteq> u \<and> locked g j)"
    "\<And>j. in_range g j \<Longrightarrow> get_seq g1 j = (if j = u \<and> vertex g vid \<noteq> None \<and> vertex g u \<noteq> None then get_seq g j + 1 else get_seq g j)"
    using Cons.prems by (auto simp: g1_def)
  have rg: "in_range g1 i = in_range g i" for i by (rule in_range_length[OF g1(1)])
  have "in_range g1 vid" "\<forall>x\<in>set us. in_range g1 x" "distinct us" using Cons.prems by (auto simp: rg)
  from Cons.IH[OF this]
  have ih: "length (bump_and_unlock vid us g1) = length g1"
    "\<And>j. in_range g j \<Longrightarrow>
        vertex (bump_and_unlock vid us g1) j = vertex g1 j \<and>
        locked (bump_and_unlock vid us g1) j = (j \<notin> set us \<and> locked g1 j) \<and>
        get_seq (bump_and_unlock vid us g1) j =
          (if j \<in> set us \<and> vertex g1 vid \<noteq> None \<and> vertex g1 j \<noteq> None then get_seq g1 j + 1 else get_seq g1 j)"
    by (auto simp: rg)
  have step: "bump_and_unlock vid (u # us) g = bump_and_unlock vid us g1"
    by (simp add: g1_def)
  show ?case
    unfolding step
  proof (intro conjI allI impI)
    show "length (bump_and_unlock vid us g1) = length g" using ih(1) g1(1) by simp
  next
    fix j assume j: "in_range g j"
    show "vertex (bump_and_unlock vid us g1) j = vertex g j" using ih(2)[OF j] g1(2)[OF j] by simp
    show "locked (bump_and_unlock vid us g1) j = (j \<notin> set (u # us) \<and> locked g j)"
      using ih(2)[OF j] g1(3)[OF j] by auto
    show "get_seq (bump_and_unlock vid us g1) j =
          (if j \<in> set (u # us) \<and> vertex g vid \<noteq> None \<and> vertex g j \<noteq> None then get_seq g j + 1 else get_seq g j)"
      using ih(2)[OF j] g1(2)[OF j] g1(2)[OF Cons.prems(1)] g1(4)[OF j] Cons.prems(3) by auto
  qed
qed

lemma absent_no_incoming:
  assumes inv: "graph_inv g" and v: "in_range g v" "vertex g v = None" and j: "in_range g j"
  shows "\<forall>r\<in>set (destination g j). Relation_src r \<noteq> v" "\<forall>r\<in>set (source g j). Relation_dest r \<noteq> v"
proof -
  show "\<forall>r\<in>set (destination g j). Relation_src r \<noteq> v"
  proof
    fix r assume r: "r \<in> set (destination g j)"
    show "Relation_src r \<noteq> v"
    proof
      assume e: "Relation_src r = v"
      have "Relation_dest r = j" using inv_destination[OF inv j r] by simp
      with inv_sym[OF inv, of r] e v j r have "r \<in> set (source g v)" by simp
      with v show False by simp
    qed
  qed
  show "\<forall>r\<in>set (source g j). Relation_dest r \<noteq> v"
  proof
    fix r assume r: "r \<in> set (source g j)"
    show "Relation_dest r \<noteq> v"
    proof
      assume e: "Relation_dest r = v"
      have "Relation_src r = j" using inv_source[OF inv j r] by simp
      with inv_sym[OF inv, of r] e v j r have "r \<in> set (destination g v)" by simp
      with v show False by simp
    qed
  qed
qed

lemma add_vertex_present:
  assumes inv: "graph_inv g" and rng: "\<forall>u\<in>set (sample_vec samples vid). in_range g u"
    and pres: "vertex g vid \<noteq> None"
  shows "\<exists>g'. add_vertex samples vid g = Inr (False, g') \<and> length g' = length g \<and>
     (\<forall>j. in_range g j \<longrightarrow>
        vertex g' j = vertex g j \<and> locked g' j = locked g j \<and>
        get_seq g' j = (if j \<in> set (sample_vec samples vid) \<and> vertex g j \<noteq> None then get_seq g j + 1 else get_seq g j))"
proof -
  let ?vec = "sample_vec samples vid"
  have vid: "in_range g vid" using rng sample_vec_props(3) by blast
  have "\<forall>u\<in>set ?vec. in_range g u \<and> \<not> locked g u" using rng inv_unlocked[OF inv] by blast
  from lock_all_result[OF this sample_vec_props(1)] obtain g1 where
    g1: "lock_all ?vec g = Inr g1" "length g1 = length g"
    and o1: "\<forall>j. in_range g j \<longrightarrow> vertex g1 j = vertex g j \<and> get_seq g1 j = get_seq g j \<and>
        locked g1 j = (j \<in> set ?vec \<or> locked g j)"
    by blast
  have rg: "in_range g1 i = in_range g i" for i by (rule in_range_length[OF g1(2)])
  have "in_range g1 vid" "\<forall>u\<in>set (rev ?vec). in_range g1 u" "distinct (rev ?vec)"
    using vid rng sample_vec_props(1) by (auto simp: rg)
  from bump_and_unlock_result[OF this]
  have b: "length (bump_and_unlock vid (rev ?vec) g1) = length g1"
    "\<forall>j. in_range g1 j \<longrightarrow>
        vertex (bump_and_unlock vid (rev ?vec) g1) j = vertex g1 j \<and>
        locked (bump_and_unlock vid (rev ?vec) g1) j = (j \<notin> set (rev ?vec) \<and> locked g1 j) \<and>
        get_seq (bump_and_unlock vid (rev ?vec) g1) j =
          (if j \<in> set (rev ?vec) \<and> vertex g1 vid \<noteq> None \<and> vertex g1 j \<noteq> None then get_seq g1 j + 1 else get_seq g1 j)"
    by blast+
  have res: "add_vertex samples vid g = Inr (False, bump_and_unlock vid (rev ?vec) g1)"
    using g1(1) o1 vid pres by (simp add: add_vertex_def Let_def)
  show ?thesis
  proof (intro exI conjI allI impI)
    show "add_vertex samples vid g = Inr (False, bump_and_unlock vid (rev ?vec) g1)" by (rule res)
    show "length (bump_and_unlock vid (rev ?vec) g1) = length g" using b(1) g1(2) by simp
  next
    fix j assume j: "in_range g j"
    then have j1: "in_range g1 j" by (simp add: rg)
    show "vertex (bump_and_unlock vid (rev ?vec) g1) j = vertex g j" using b(2) j1 o1 j by simp
    show "locked (bump_and_unlock vid (rev ?vec) g1) j = locked g j"
      using b(2) j1 o1 j inv_unlocked[OF inv j] by auto
    show "get_seq (bump_and_unlock vid (rev ?vec) g1) j =
        (if j \<in> set ?vec \<and> vertex g j \<noteq> None then get_seq g j + 1 else get_seq g j)"
      using b(2) j1 o1 j vid pres by auto
  qed
qed

lemma add_vertex_absent:
  assumes inv: "graph_inv g" and rng: "\<forall>u\<in>set (sample_vec samples vid). in_range g u"
    and absent: "vertex g vid = None"
  shows "\<exists>g'. add_vertex samples vid g = Inr (True, g') \<and> length g' = length g \<and>
     (\<forall>j. in_range g j \<longrightarrow>
        source g' j = (if j = vid
            then map (edge vid) (filter (\<lambda>u. vertex g u \<noteq> None \<and> u \<noteq> vid) (sample_vec samples vid))
            else source g j) \<and>
        destination g' j = (if j \<in> set (sample_vec samples vid) \<and> j \<noteq> vid \<and> vertex g j \<noteq> None
            then destination g j @ [edge vid j] else destination g j) \<and>
        locked g' j = locked g j \<and>
        (vertex g' j = None \<longleftrightarrow> j \<noteq> vid \<and> vertex g j = None) \<and>
        get_seq g' j = (if j \<in> set (sample_vec samples vid) \<and> (j = vid \<or> vertex g j \<noteq> None)
            then get_seq g j + 1 else get_seq g j))"
proof -
  let ?vec = "sample_vec samples vid"
  let ?new = "\<lparr>adjacency_list = [], dest_list = [], Vertex_id = vid, Vertex_lbl = vid\<rparr>"
  have vid: "in_range g vid" using rng sample_vec_props(3) by blast
  have "\<forall>u\<in>set ?vec. in_range g u \<and> \<not> locked g u" using rng inv_unlocked[OF inv] by blast
  from lock_all_result[OF this sample_vec_props(1)] obtain g1 where
    g1: "lock_all ?vec g = Inr g1" "length g1 = length g"
    and o1: "\<forall>j. in_range g j \<longrightarrow> vertex g1 j = vertex g j \<and> get_seq g1 j = get_seq g j \<and>
        locked g1 j = (j \<in> set ?vec \<or> locked g j)"
    by blast
  have rg1: "in_range g1 i = in_range g i" for i by (rule in_range_length[OF g1(2)])
  define g2 where "g2 = set_vertex vid (Some ?new) g1"
  have g2: "length g2 = length g"
    "\<And>j. in_range g j \<Longrightarrow> vertex g2 j = (if j = vid then Some ?new else vertex g j)"
    "\<And>j. in_range g j \<Longrightarrow> locked g2 j = (j \<in> set ?vec) \<and> get_seq g2 j = get_seq g j"
    using o1 vid g1(2) inv_unlocked[OF inv] by (auto simp: g2_def rg1)
  have rg2: "in_range g2 i = in_range g i" for i by (rule in_range_length[OF g2(1)])
  have sd2: "source g2 j = source g j" "destination g2 j = destination g j" if "in_range g j" for j
    using g2(2)[OF that] absent by (auto simp: source_def destination_def)
  define g3 where "g3 = link_new_vertex vid ?vec g2"
  have p: "in_range g2 vid" "vertex g2 vid \<noteq> None" "\<forall>u\<in>set ?vec. in_range g2 u" "distinct ?vec"
    using vid rng g2(2)[OF vid] sample_vec_props(1) by (auto simp: rg2)
  have q: "\<forall>u\<in>set ?vec. u \<noteq> vid \<longrightarrow> vertex g2 u \<noteq> None \<longrightarrow>
           \<not> has_relation (source g2 vid) (edge vid u) \<and> \<not> has_relation (destination g2 u) (edge vid u)"
  proof (intro ballI impI)
    fix u assume u: "u \<in> set ?vec" "u \<noteq> vid"
    then have ur: "in_range g u" using rng by blast
    show "\<not> has_relation (source g2 vid) (edge vid u) \<and> \<not> has_relation (destination g2 u) (edge vid u)"
      using absent_no_incoming(1)[OF inv vid absent ur] sd2[OF ur] sd2[OF vid] absent
      by (auto simp: has_relation_iff RelationEqual_def edge_def)
  qed
  have flt: "filter (\<lambda>u. vertex g2 u \<noteq> None \<and> u \<noteq> vid) ?vec = filter (\<lambda>u. vertex g u \<noteq> None \<and> u \<noteq> vid) ?vec"
    using rng g2(2) by (intro filter_cong) auto
  from link_new_vertex_result[OF p q]
  have g3: "length g3 = length g"
    "\<And>j. in_range g j \<Longrightarrow>
        source g3 j = (if j = vid then map (edge vid) (filter (\<lambda>u. vertex g u \<noteq> None \<and> u \<noteq> vid) ?vec)
           else source g j) \<and>
        destination g3 j = (if j \<in> set ?vec \<and> j \<noteq> vid \<and> vertex g j \<noteq> None then destination g j @ [edge vid j]
           else destination g j) \<and>
        locked g3 j = (j \<in> set ?vec) \<and>
        get_seq g3 j = get_seq g j \<and>
        (vertex g3 j = None \<longleftrightarrow> j \<noteq> vid \<and> vertex g j = None)"
    unfolding g3_def[symmetric] flt using g2 sd2 absent vid by (auto simp: rg2)
  have rg3: "in_range g3 i = in_range g i" for i by (rule in_range_length[OF g3(1)])
  define g4 where "g4 = bump_and_unlock vid (rev ?vec) g3"
  have "in_range g3 vid" "\<forall>u\<in>set (rev ?vec). in_range g3 u" "distinct (rev ?vec)"
    using vid rng sample_vec_props(1) by (auto simp: rg3)
  from bump_and_unlock_result[OF this]
  have b: "length g4 = length g3"
    "\<And>j. in_range g j \<Longrightarrow>
        vertex g4 j = vertex g3 j \<and>
        locked g4 j = (j \<notin> set ?vec \<and> locked g3 j) \<and>
        get_seq g4 j =
          (if j \<in> set ?vec \<and> vertex g3 vid \<noteq> None \<and> vertex g3 j \<noteq> None then get_seq g3 j + 1 else get_seq g3 j)"
    unfolding g4_def[symmetric] by (auto simp: rg3)
  have res: "add_vertex samples vid g = Inr (True, g4)"
    using g1(1) o1 vid absent by (simp add: add_vertex_def Let_def g4_def g3_def g2_def)
  have sd4: "source g4 j = source g3 j" "destination g4 j = destination g3 j" if "in_range g j" for j
    using b(2)[OF that] by (simp_all add: source_def destination_def)
  show ?thesis
  proof (intro exI conjI allI impI)
    show "add_vertex samples vid g = Inr (True, g4)" by (rule res)
    show "length g4 = length g" using b(1) g3(1) by simp
  next
    fix j assume j: "in_range g j"
    show "source g4 j = (if j = vid
            then map (edge vid) (filter (\<lambda>u. vertex g u \<noteq> None \<and> u \<noteq> vid) ?vec)
            else source g j)"
      using sd4[OF j] g3(2)[OF j] by simp
    show "destination g4 j = (if j \<in> set ?vec \<and> j \<noteq> vid \<and> vertex g j \<noteq> None
            then destination g j @ [edge vid j] else destination g j)"
      using sd4[OF j] g3(2)[OF j] by simp
    show "locked g4 j = locked g j" using b(2)[OF j] g3(2)[OF j] inv_unlocked[OF inv j] by auto
    show "vertex g4 j = None \<longleftrightarrow> j \<noteq> vid \<and> vertex g j = None" using b(2)[OF j] g3(2)[OF j] by simp
    show "get_seq g4 j = (if j \<in> set ?vec \<and> (j = vid \<or> vertex g j \<noteq> None)
            then get_seq g j + 1 else get_seq g j)"
      using b(2)[OF j] g3(2)[OF j] g3(2)[OF vid] by auto
  qed
qed

lemma edge_sel [simp]: "Relation_src (edge u v) = u" "Relation_dest (edge u v) = v" "Relation_weight (edge u v) = - 1"
  by (simp_all add: edge_def)

lemma in_edge_image:
  "r \<in> edge v ` S \<longleftrightarrow> r = edge v (Relation_dest r) \<and> Relation_dest r \<in> S"
  by (cases r) (auto simp: edge_def)

lemma add_vertex_inv:
  assumes inv: "graph_inv g" and rng: "\<forall>u\<in>set (sample_vec samples vid). in_range g u"
  shows "\<exists>g'. add_vertex samples vid g = Inr (vertex g vid = None, g') \<and> graph_inv g' \<and> length g' = length g"
proof (cases "vertex g vid = None")
  case False
  from add_vertex_present[OF inv rng False] obtain g' where
    g': "add_vertex samples vid g = Inr (False, g')" "length g' = length g"
    and o: "\<forall>j. in_range g j \<longrightarrow> vertex g' j = vertex g j \<and> locked g' j = locked g j"
    by blast
  have "graph_inv g' = graph_inv g"
    using o by (intro graph_inv_cong g'(2)) (simp add: source_def destination_def)
  with inv g' False show ?thesis by auto
next
  case True
  let ?vec = "sample_vec samples vid"
  have vid: "in_range g vid" using rng sample_vec_props(3) by blast
  from add_vertex_absent[OF inv rng True] obtain g' where
    g': "add_vertex samples vid g = Inr (True, g')" "length g' = length g"
    and o: "\<forall>j. in_range g j \<longrightarrow>
        source g' j = (if j = vid
            then map (edge vid) (filter (\<lambda>u. vertex g u \<noteq> None \<and> u \<noteq> vid) ?vec)
            else source g j) \<and>
        destination g' j = (if j \<in> set ?vec \<and> j \<noteq> vid \<and> vertex g j \<noteq> None
            then destination g j @ [edge vid j] else destination g j) \<and>
        locked g' j = locked g j"
    by blast
  have os: "source g' j = (if j = vid
            then map (edge vid) (filter (\<lambda>u. vertex g u \<noteq> None \<and> u \<noteq> vid) ?vec)
            else source g j)"
    and od: "destination g' j = (if j \<in> set ?vec \<and> j \<noteq> vid \<and> vertex g j \<noteq> None
            then destination g j @ [edge vid j] else destination g j)"
    and ol: "locked g' j = locked g j" if "in_range g j" for j
    using o that by blast+
  have rg: "in_range g' i = in_range g i" for i by (rule in_range_length[OF g'(2)])
  have nin: "\<forall>r\<in>set (destination g j). Relation_src r \<noteq> vid" "\<forall>r\<in>set (source g j). Relation_dest r \<noteq> vid"
    if "in_range g j" for j
    using absent_no_incoming[OF inv vid True that] by blast+
  have "graph_inv g'"
    unfolding graph_inv_def
  proof (intro conjI allI impI)
    fix i assume "in_range g' i"
    then have gi: "in_range g i" by (simp add: rg)
    show "\<not> locked g' i" using ol[OF gi] inv_unlocked[OF inv gi] by simp
    show "\<forall>r\<in>set (source g' i). Relation_src r = i \<and> Relation_dest r \<noteq> i \<and> in_range g' (Relation_dest r)"
      using os[OF gi] inv_source[OF inv gi] rng by (auto simp: rg edge_def)
    show "\<forall>r\<in>set (destination g' i). Relation_dest r = i \<and> Relation_src r \<noteq> i \<and> in_range g' (Relation_src r)"
      using od[OF gi] inv_destination[OF inv gi] vid by (auto simp: rg edge_def)
    show "distinct (map Relation_dest (source g' i))"
    proof (cases "i = vid")
      case True
      have "map Relation_dest (source g' i) = filter (\<lambda>u. vertex g u \<noteq> None \<and> u \<noteq> vid) ?vec"
        using os[OF gi] True by (simp add: comp_def edge_def)
      then show ?thesis using sample_vec_props(1) by simp
    next
      case False
      then show ?thesis using os[OF gi] inv_distinct_source[OF inv gi] by simp
    qed
    show "distinct (map Relation_src (destination g' i))"
      using od[OF gi] inv_distinct_destination[OF inv gi] nin(1)[OF gi] by (auto simp: edge_def)
  next
    fix r :: Relation
    assume "in_range g' (Relation_src r) \<and> in_range g' (Relation_dest r)"
    then have r: "in_range g (Relation_src r)" "in_range g (Relation_dest r)" by (simp_all add: rg)
    have old: "r \<in> set (source g (Relation_src r)) \<longleftrightarrow> r \<in> set (destination g (Relation_dest r))"
      by (rule inv_sym[OF inv r])
    have l: "r \<in> set (source g' (Relation_src r)) \<longleftrightarrow>
        (if Relation_src r = vid
         then r = edge vid (Relation_dest r) \<and> Relation_dest r \<in> set ?vec \<and> vertex g (Relation_dest r) \<noteq> None \<and> Relation_dest r \<noteq> vid
         else r \<in> set (source g (Relation_src r)))"
      using os[OF r(1)] by (auto simp: in_edge_image)
    have rr: "r \<in> set (destination g' (Relation_dest r)) \<longleftrightarrow>
        (if Relation_src r = vid
         then r = edge vid (Relation_dest r) \<and> Relation_dest r \<in> set ?vec \<and> vertex g (Relation_dest r) \<noteq> None \<and> Relation_dest r \<noteq> vid
         else r \<in> set (destination g (Relation_dest r)))"
    proof -
      have e: "r = edge vid (Relation_dest r) \<Longrightarrow> Relation_src r = vid" by (metis edge_sel(1))
      show ?thesis using od[OF r(2)] nin(1)[OF r(2)] e by auto
    qed
    show "r \<in> set (source g' (Relation_src r)) \<longleftrightarrow> r \<in> set (destination g' (Relation_dest r))"
      unfolding l rr using old by simp
  qed
  with g' True show ?thesis by auto
qed

lemma remove_relation_filter:
  assumes "distinct (map f S)" "\<forall>r\<in>set S. RelationEqual r k \<longleftrightarrow> f r = c"
  shows "fst (remove_relation S k) = filter (\<lambda>r. f r \<noteq> c) S"
  using assms
proof (induction S)
  case Nil
  then show ?case by (simp add: remove_relation_def Set_find_def)
next
  case (Cons x S)
  show ?case
  proof (cases "RelationEqual x k")
    case True
    then have "f x = c" using Cons.prems(2) by simp
    then have "\<forall>r\<in>set S. f r \<noteq> c" using Cons.prems(1) by (auto simp: image_iff)
    then have "filter (\<lambda>r. f r \<noteq> c) S = S" by (simp add: filter_id_conv)
    with True \<open>f x = c\<close> show ?thesis by (simp add: remove_relation_def Set_find_def)
  next
    case False
    then have fx: "f x \<noteq> c" using Cons.prems(2) by simp
    have ih: "fst (remove_relation S k) = filter (\<lambda>r. f r \<noteq> c) S" using Cons by simp
    show ?thesis
    proof (cases "Set_find S k")
      case None
      with ih False fx show ?thesis by (simp add: remove_relation_def Set_find_def)
    next
      case (Some y)
      then have "RelationEqual y k" using Set_find_Some by blast
      with False have "x \<noteq> y" by auto
      with ih False fx Some show ?thesis by (simp add: remove_relation_def Set_find_def)
    qed
  qed
qed

lemma remove_relation_source:
  assumes "\<forall>r\<in>set S. Relation_src r = a" "distinct (map Relation_dest S)"
  shows "fst (remove_relation S (edge a b)) = filter (\<lambda>r. Relation_dest r \<noteq> b) S"
  using assms by (intro remove_relation_filter) (auto simp: RelationEqual_def)

lemma remove_relation_destination:
  assumes "\<forall>r\<in>set S. Relation_dest r = b" "distinct (map Relation_src S)"
  shows "fst (remove_relation S (edge a b)) = filter (\<lambda>r. Relation_src r \<noteq> a) S"
  using assms by (intro remove_relation_filter) (auto simp: RelationEqual_def)

lemma acquire_lock_all:
  assumes "in_range g vid" "get_seq g vid \<noteq> seq \<or> (\<forall>u\<in>set us. in_range g u \<longrightarrow> vertex g u \<noteq> None)"
  shows "acquire vid seq us g = lock_all us g"
  using assms
proof (induction us arbitrary: g)
  case Nil
  then show ?case by simp
next
  case (Cons u us)
  show ?case
  proof (cases "in_range g u \<and> \<not> locked g u")
    case False
    then show ?thesis by (auto simp: lock_eq)
  next
    case True
    have "in_range (set_locked u g) vid"
      "get_seq (set_locked u g) vid \<noteq> seq \<or> (\<forall>x\<in>set us. in_range (set_locked u g) x \<longrightarrow> vertex (set_locked u g) x \<noteq> None)"
      using Cons.prems True
      by (auto simp: lock_all_failure)
    from Cons.IH[OF this] show ?thesis
      using True Cons.prems by (auto simp: lock_eq)
  qed
qed

lemma detach_result:
  assumes vid: "in_range g vid" and us: "\<forall>u\<in>set us. in_range g u" "distinct us"
    and nb: "\<forall>u\<in>set us. u \<noteq> vid \<longrightarrow> vertex g u \<noteq> None \<and>
        (has_relation (source g u) (edge u vid) \<or> has_relation (destination g u) (edge vid u))"
    and wf: "\<forall>u\<in>set us. (\<forall>r\<in>set (source g u). Relation_src r = u) \<and> distinct (map Relation_dest (source g u)) \<and>
        (\<forall>r\<in>set (destination g u). Relation_dest r = u) \<and> distinct (map Relation_src (destination g u))"
  shows "\<exists>g'. detach vid us g = Inr g' \<and> length g' = length g \<and>
     (\<forall>j. in_range g j \<longrightarrow>
        source g' j = (if j \<in> set us \<and> j \<noteq> vid then filter (\<lambda>r. Relation_dest r \<noteq> vid) (source g j) else source g j) \<and>
        destination g' j = (if j \<in> set us \<and> j \<noteq> vid then filter (\<lambda>r. Relation_src r \<noteq> vid) (destination g j) else destination g j) \<and>
        locked g' j = locked g j \<and> get_seq g' j = get_seq g j \<and>
        (vertex g' j = None \<longleftrightarrow> vertex g j = None))"
  using assms
proof (induction us arbitrary: g)
  case Nil
  then show ?case by simp
next
  case (Cons u us)
  have rest: "\<forall>x\<in>set us. in_range g x" "distinct us" "u \<notin> set us" "in_range g u" using Cons.prems by auto
  show ?case
  proof (cases "u = vid")
    case True
    have "\<forall>x\<in>set us. x \<noteq> vid \<longrightarrow> vertex g x \<noteq> None \<and>
        (has_relation (source g x) (edge x vid) \<or> has_relation (destination g x) (edge vid x))"
      "\<forall>x\<in>set us. (\<forall>r\<in>set (source g x). Relation_src r = x) \<and> distinct (map Relation_dest (source g x)) \<and>
        (\<forall>r\<in>set (destination g x). Relation_dest r = x) \<and> distinct (map Relation_src (destination g x))"
      using Cons.prems(4,5) by auto
    from Cons.IH[OF Cons.prems(1) rest(1,2) this] show ?thesis using True rest(3) by auto
  next
    case False
    define S where "S = filter (\<lambda>r. Relation_dest r \<noteq> vid) (source g u)"
    define D where "D = filter (\<lambda>r. Relation_src r \<noteq> vid) (destination g u)"
    define g2 where "g2 = set_destination u D (set_source u S g)"
    obtain vu where vu: "vertex g u = Some vu" using Cons.prems(4) False by auto
    have wfu: "\<forall>r\<in>set (source g u). Relation_src r = u" "distinct (map Relation_dest (source g u))"
        "\<forall>r\<in>set (destination g u). Relation_dest r = u" "distinct (map Relation_src (destination g u))"
      using Cons.prems(5) by auto
    have rm: "fst (remove_relation (source g u) (edge u vid)) = S"
      "fst (remove_relation (destination g u) (edge vid u)) = D"
      unfolding S_def D_def using wfu
      by (simp_all add: remove_relation_source remove_relation_destination)
    have g2: "length g2 = length g"
      "\<And>j. in_range g j \<Longrightarrow> source g2 j = (if j = u then S else source g j)"
      "\<And>j. in_range g j \<Longrightarrow> destination g2 j = (if j = u then D else destination g j)"
      "\<And>j. in_range g j \<Longrightarrow> locked g2 j = locked g j \<and> get_seq g2 j = get_seq g j"
      "\<And>j. in_range g j \<Longrightarrow> vertex g2 j = None \<longleftrightarrow> vertex g j = None"
      using rest(4) vu by (auto simp: g2_def)
    have chk: "\<not> has_relation S (edge u vid)" "\<not> has_relation D (edge vid u)"
      by (auto simp: S_def D_def has_relation_iff RelationEqual_def)
    have nbu: "\<not> (\<not> has_relation (source g u) (edge u vid) \<and> \<not> has_relation (destination g u) (edge vid u))"
      using Cons.prems(4) False by auto
    have d1: "destination (set_source u S g) u = destination g u" using rest(4) by simp
    have step: "detach vid (u # us) g = detach vid us g2"
      using False vu nbu g2(2)[OF rest(4)] g2(3)[OF rest(4)] chk
      by (auto simp: Let_def edge_def[symmetric] rm d1 g2_def[symmetric])
    have rg: "in_range g2 i = in_range g i" for i by (rule in_range_length[OF g2(1)])
    have p: "in_range g2 vid" "\<forall>x\<in>set us. in_range g2 x" using Cons.prems(1) rest(1) by (auto simp: rg)
    have q: "\<forall>x\<in>set us. x \<noteq> vid \<longrightarrow> vertex g2 x \<noteq> None \<and>
        (has_relation (source g2 x) (edge x vid) \<or> has_relation (destination g2 x) (edge vid x))"
      "\<forall>x\<in>set us. (\<forall>r\<in>set (source g2 x). Relation_src r = x) \<and> distinct (map Relation_dest (source g2 x)) \<and>
        (\<forall>r\<in>set (destination g2 x). Relation_dest r = x) \<and> distinct (map Relation_src (destination g2 x))"
      using Cons.prems(4,5) rest g2 by auto
    from Cons.IH[OF p rest(2) q] obtain g' where
      g': "detach vid us g2 = Inr g'" "length g' = length g2"
      and o: "\<forall>j. in_range g2 j \<longrightarrow>
        source g' j = (if j \<in> set us \<and> j \<noteq> vid then filter (\<lambda>r. Relation_dest r \<noteq> vid) (source g2 j) else source g2 j) \<and>
        destination g' j = (if j \<in> set us \<and> j \<noteq> vid then filter (\<lambda>r. Relation_src r \<noteq> vid) (destination g2 j) else destination g2 j) \<and>
        locked g' j = locked g2 j \<and> get_seq g' j = get_seq g2 j \<and>
        (vertex g' j = None \<longleftrightarrow> vertex g2 j = None)"
      by blast
    show ?thesis
    proof (intro exI conjI allI impI)
      show "detach vid (u # us) g = Inr g'" using step g'(1) by simp
      show "length g' = length g" using g'(2) g2(1) by simp
    next
      fix j assume j: "in_range g j"
      then have j2: "in_range g2 j" by (simp add: rg)
      show "source g' j = (if j \<in> set (u # us) \<and> j \<noteq> vid then filter (\<lambda>r. Relation_dest r \<noteq> vid) (source g j) else source g j)"
        using o j2 g2(2)[OF j] rest(3) False by (auto simp: S_def)
      show "destination g' j = (if j \<in> set (u # us) \<and> j \<noteq> vid then filter (\<lambda>r. Relation_src r \<noteq> vid) (destination g j) else destination g j)"
        using o j2 g2(3)[OF j] rest(3) False by (auto simp: D_def)
      show "locked g' j = locked g j" "get_seq g' j = get_seq g j" "vertex g' j = None \<longleftrightarrow> vertex g j = None"
        using o j2 g2(4)[OF j] g2(5)[OF j] by simp_all
    qed
  qed
qed

lemma release_result:
  assumes "\<forall>u\<in>set us. in_range g u" "distinct us"
  shows "length (release us g) = length g \<and>
     (\<forall>j. in_range g j \<longrightarrow>
        vertex (release us g) j = vertex g j \<and>
        locked (release us g) j = (j \<notin> set us \<and> locked g j) \<and>
        get_seq (release us g) j = (if j \<in> set us then get_seq g j + 1 else get_seq g j))"
  using assms
proof (induction us arbitrary: g)
  case Nil
  then show ?case by simp
next
  case (Cons u us)
  have "\<forall>x\<in>set us. in_range (unlock u (inc_seq u g)) x" "distinct us" using Cons.prems by auto
  from Cons.IH[OF this] show ?case using Cons.prems by auto
qed

lemma member_present:
  "r \<in> set (source g i) \<Longrightarrow> vertex g i \<noteq> None"
  "r \<in> set (destination g i) \<Longrightarrow> vertex g i \<noteq> None"
  by (cases "vertex g i"; simp)+

lemma collect_vertices_neighbours:
  assumes inv: "graph_inv g" and vid: "in_range g vid" and u: "u \<in> set (collect_vertices g vid)"
  shows "in_range g u"
    and "u \<noteq> vid \<Longrightarrow> vertex g u \<noteq> None \<and>
        (has_relation (source g u) (edge u vid) \<or> has_relation (destination g u) (edge vid u))"
proof -
  from u consider "u = vid" | r where "r \<in> set (source g vid)" "Relation_dest r = u"
    | r where "r \<in> set (destination g vid)" "Relation_src r = u"
    by (auto simp: collect_vertices_props(3))
  then have "in_range g u \<and> (u \<noteq> vid \<longrightarrow> vertex g u \<noteq> None \<and>
        (has_relation (source g u) (edge u vid) \<or> has_relation (destination g u) (edge vid u)))"
  proof cases
    case 1
    then show ?thesis using vid by simp
  next
    case 2
    from inv_source[OF inv vid 2(1)] 2(2) have r: "Relation_src r = vid" "in_range g u" by auto
    with inv_sym[OF inv, of r] 2 vid have "r \<in> set (destination g u)" by simp
    then have "vertex g u \<noteq> None" "has_relation (destination g u) (edge vid u)"
      using r 2(2) member_present(2)[of r g u] by (auto simp: has_relation_iff RelationEqual_def)
    with r show ?thesis by simp
  next
    case 3
    from inv_destination[OF inv vid 3(1)] 3(2) have r: "Relation_dest r = vid" "in_range g u" by auto
    with inv_sym[OF inv, of r] 3 vid have "r \<in> set (source g u)" by simp
    then have "vertex g u \<noteq> None" "has_relation (source g u) (edge u vid)"
      using r 3(2) member_present(1)[of r g u] by (auto simp: has_relation_iff RelationEqual_def)
    with r show ?thesis by simp
  qed
  then show "in_range g u"
    and "u \<noteq> vid \<Longrightarrow> vertex g u \<noteq> None \<and>
        (has_relation (source g u) (edge u vid) \<or> has_relation (destination g u) (edge vid u))"
    by blast+
qed

lemma outside_vertices_untouched:
  assumes inv: "graph_inv g" and vid: "in_range g vid" and j: "in_range g j" "j \<notin> set (collect_vertices g vid)"
  shows "filter (\<lambda>r. Relation_dest r \<noteq> vid) (source g j) = source g j"
    and "filter (\<lambda>r. Relation_src r \<noteq> vid) (destination g j) = destination g j"
proof -
  have "\<forall>r\<in>set (source g j). Relation_dest r \<noteq> vid"
  proof (intro ballI notI)
    fix r assume r: "r \<in> set (source g j)" "Relation_dest r = vid"
    have "Relation_src r = j" using inv_source[OF inv j(1) r(1)] by simp
    with inv_sym[OF inv, of r] r j vid have "r \<in> set (destination g vid)" by simp
    with \<open>Relation_src r = j\<close> have "j \<in> set (collect_vertices g vid)"
      by (auto simp: collect_vertices_props(3))
    with j show False by simp
  qed
  then show "filter (\<lambda>r. Relation_dest r \<noteq> vid) (source g j) = source g j" by (simp add: filter_id_conv)
  have "\<forall>r\<in>set (destination g j). Relation_src r \<noteq> vid"
  proof (intro ballI notI)
    fix r assume r: "r \<in> set (destination g j)" "Relation_src r = vid"
    have "Relation_dest r = j" using inv_destination[OF inv j(1) r(1)] by simp
    with inv_sym[OF inv, of r] r j vid have "r \<in> set (source g vid)" by simp
    with \<open>Relation_dest r = j\<close> have "j \<in> set (collect_vertices g vid)"
      by (auto simp: collect_vertices_props(3))
    with j show False by simp
  qed
  then show "filter (\<lambda>r. Relation_src r \<noteq> vid) (destination g j) = destination g j" by (simp add: filter_id_conv)
qed

lemma remove_vertex_commit:
  assumes inv: "graph_inv g" and vid: "in_range g vid" and pres: "vertex g vid \<noteq> None"
  shows "\<exists>g4 g5. acquire vid (get_seq g vid) (collect_vertices g vid) g = Inr g4 \<and>
      get_seq g4 vid = get_seq g vid \<and> detach vid (collect_vertices g vid) g4 = Inr g5 \<and>
      vertex g5 vid \<noteq> None \<and>
      length (release (rev (collect_vertices g vid)) (set_vertex vid None g5)) = length g \<and>
      (\<forall>j. in_range g j \<longrightarrow>
         source (release (rev (collect_vertices g vid)) (set_vertex vid None g5)) j =
           (if j = vid then [] else filter (\<lambda>r. Relation_dest r \<noteq> vid) (source g j)) \<and>
         destination (release (rev (collect_vertices g vid)) (set_vertex vid None g5)) j =
           (if j = vid then [] else filter (\<lambda>r. Relation_src r \<noteq> vid) (destination g j)) \<and>
         \<not> locked (release (rev (collect_vertices g vid)) (set_vertex vid None g5)) j \<and>
         get_seq (release (rev (collect_vertices g vid)) (set_vertex vid None g5)) j =
           (if j \<in> set (collect_vertices g vid) then get_seq g j + 1 else get_seq g j) \<and>
         (vertex (release (rev (collect_vertices g vid)) (set_vertex vid None g5)) j = None \<longleftrightarrow>
            j = vid \<or> vertex g j = None))"
proof -
  let ?vs = "collect_vertices g vid"
  have vs: "\<forall>u\<in>set ?vs. in_range g u" "distinct ?vs"
    using collect_vertices_neighbours(1)[OF inv vid] collect_vertices_props(1) by blast+
  have nb: "\<forall>u\<in>set ?vs. u \<noteq> vid \<longrightarrow> vertex g u \<noteq> None \<and>
        (has_relation (source g u) (edge u vid) \<or> has_relation (destination g u) (edge vid u))"
    using collect_vertices_neighbours(2)[OF inv vid] by blast
  have "\<forall>u\<in>set ?vs. in_range g u \<longrightarrow> vertex g u \<noteq> None" using nb pres by metis
  then have a: "acquire vid (get_seq g vid) ?vs g = lock_all ?vs g"
    using vid by (intro acquire_lock_all) auto
  have "\<forall>u\<in>set ?vs. in_range g u \<and> \<not> locked g u" using vs(1) inv_unlocked[OF inv] by blast
  from lock_all_result[OF this vs(2)] obtain g4 where
    g4: "lock_all ?vs g = Inr g4" "length g4 = length g"
    and o4: "\<forall>j. in_range g j \<longrightarrow> vertex g4 j = vertex g j \<and> get_seq g4 j = get_seq g j \<and>
        locked g4 j = (j \<in> set ?vs \<or> locked g j)"
    by blast
  have rg4: "in_range g4 i = in_range g i" for i by (rule in_range_length[OF g4(2)])
  have sd4: "source g4 j = source g j" "destination g4 j = destination g j" if "in_range g j" for j
    using o4 that by (simp_all add: source_def destination_def)
  have p: "in_range g4 vid" "\<forall>u\<in>set ?vs. in_range g4 u" using vid vs(1) by (auto simp: rg4)
  have q1: "\<forall>u\<in>set ?vs. u \<noteq> vid \<longrightarrow> vertex g4 u \<noteq> None \<and>
        (has_relation (source g4 u) (edge u vid) \<or> has_relation (destination g4 u) (edge vid u))"
    using nb vs(1) o4 sd4 by auto
  have q2: "\<forall>u\<in>set ?vs. (\<forall>r\<in>set (source g4 u). Relation_src r = u) \<and> distinct (map Relation_dest (source g4 u)) \<and>
        (\<forall>r\<in>set (destination g4 u). Relation_dest r = u) \<and> distinct (map Relation_src (destination g4 u))"
  proof
    fix u assume "u \<in> set ?vs"
    then have u: "in_range g u" using vs(1) by blast
    show "(\<forall>r\<in>set (source g4 u). Relation_src r = u) \<and> distinct (map Relation_dest (source g4 u)) \<and>
        (\<forall>r\<in>set (destination g4 u). Relation_dest r = u) \<and> distinct (map Relation_src (destination g4 u))"
      using sd4[OF u] inv_source[OF inv u] inv_destination[OF inv u]
        inv_distinct_source[OF inv u] inv_distinct_destination[OF inv u] by auto
  qed
  from detach_result[OF p vs(2) q1 q2] obtain g5 where
    g5: "detach vid ?vs g4 = Inr g5" "length g5 = length g4"
    and o5: "\<forall>j. in_range g4 j \<longrightarrow>
        source g5 j = (if j \<in> set ?vs \<and> j \<noteq> vid then filter (\<lambda>r. Relation_dest r \<noteq> vid) (source g4 j) else source g4 j) \<and>
        destination g5 j = (if j \<in> set ?vs \<and> j \<noteq> vid then filter (\<lambda>r. Relation_src r \<noteq> vid) (destination g4 j) else destination g4 j) \<and>
        locked g5 j = locked g4 j \<and> get_seq g5 j = get_seq g4 j \<and>
        (vertex g5 j = None \<longleftrightarrow> vertex g4 j = None)"
    by blast
  have rg5: "in_range g5 i = in_range g i" for i using in_range_length[OF g5(2)] rg4 by simp
  define g6 where "g6 = set_vertex vid None g5"
  have g6: "length g6 = length g" using g5(2) g4(2) by (simp add: g6_def)
  have rg6: "in_range g6 i = in_range g i" for i by (rule in_range_length[OF g6])
  have o6: "source g6 j = (if j = vid then [] else filter (\<lambda>r. Relation_dest r \<noteq> vid) (source g j))"
    "destination g6 j = (if j = vid then [] else filter (\<lambda>r. Relation_src r \<noteq> vid) (destination g j))"
    "locked g6 j = (j \<in> set ?vs)" "get_seq g6 j = get_seq g j"
    "vertex g6 j = None \<longleftrightarrow> j = vid \<or> vertex g j = None" if j: "in_range g j" for j
  proof -
    have j4: "in_range g4 j" "in_range g5 j" "in_range g5 vid" using j vid by (simp_all add: rg4 rg5)
    show "source g6 j = (if j = vid then [] else filter (\<lambda>r. Relation_dest r \<noteq> vid) (source g j))"
      using o5 j4 sd4[OF j] outside_vertices_untouched(1)[OF inv vid j] by (auto simp: g6_def)
    show "destination g6 j = (if j = vid then [] else filter (\<lambda>r. Relation_src r \<noteq> vid) (destination g j))"
      using o5 j4 sd4[OF j] outside_vertices_untouched(2)[OF inv vid j] by (auto simp: g6_def)
    show "locked g6 j = (j \<in> set ?vs)" using o5 j4 o4 j inv_unlocked[OF inv j] by (auto simp: g6_def)
    show "get_seq g6 j = get_seq g j" using o5 j4 o4 j by (auto simp: g6_def)
    show "vertex g6 j = None \<longleftrightarrow> j = vid \<or> vertex g j = None" using o5 j4 o4 j by (auto simp: g6_def)
  qed
  have "\<forall>u\<in>set (rev ?vs). in_range g6 u" "distinct (rev ?vs)" using vs by (auto simp: rg6)
  from release_result[OF this]
  have r: "length (release (rev ?vs) g6) = length g6"
    "\<And>j. in_range g j \<Longrightarrow>
        vertex (release (rev ?vs) g6) j = vertex g6 j \<and>
        locked (release (rev ?vs) g6) j = (j \<notin> set ?vs \<and> locked g6 j) \<and>
        get_seq (release (rev ?vs) g6) j = (if j \<in> set ?vs then get_seq g6 j + 1 else get_seq g6 j)"
    by (auto simp: rg6)
  have sdr: "source (release (rev ?vs) g6) j = source g6 j" "destination (release (rev ?vs) g6) j = destination g6 j"
    if "in_range g j" for j
    using r(2)[OF that] by (simp_all add: source_def destination_def)
  show ?thesis
  proof (intro exI conjI allI impI)
    show "acquire vid (get_seq g vid) ?vs g = Inr g4" using a g4(1) by simp
    show "get_seq g4 vid = get_seq g vid" using o4 vid by simp
    show "detach vid ?vs g4 = Inr g5" by (rule g5(1))
    show "vertex g5 vid \<noteq> None" using o5 o4 vid pres by (simp add: rg4)
    show "length (release (rev ?vs) (set_vertex vid None g5)) = length g"
      using r(1) g6 by (simp add: g6_def)
  next
    fix j assume j: "in_range g j"
    show "source (release (rev ?vs) (set_vertex vid None g5)) j =
           (if j = vid then [] else filter (\<lambda>r. Relation_dest r \<noteq> vid) (source g j))"
      using sdr(1)[OF j] o6(1)[OF j] by (simp add: g6_def)
    show "destination (release (rev ?vs) (set_vertex vid None g5)) j =
           (if j = vid then [] else filter (\<lambda>r. Relation_src r \<noteq> vid) (destination g j))"
      using sdr(2)[OF j] o6(2)[OF j] by (simp add: g6_def)
    show "\<not> locked (release (rev ?vs) (set_vertex vid None g5)) j"
      using r(2)[OF j] o6(3)[OF j] by (simp add: g6_def)
    show "get_seq (release (rev ?vs) (set_vertex vid None g5)) j =
           (if j \<in> set ?vs then get_seq g j + 1 else get_seq g j)"
      using r(2)[OF j] o6(4)[OF j] by (simp add: g6_def)
    show "vertex (release (rev ?vs) (set_vertex vid None g5)) j = None \<longleftrightarrow> j = vid \<or> vertex g j = None"
      using r(2)[OF j] o6(5)[OF j] by (simp add: g6_def)
  qed
qed

lemma remove_vertex_head:
  assumes "in_range g vid" "\<not> locked g vid"
  shows "remove_vertex (Suc n) env vid g =
     (if vertex g vid = None then Some (Inr (False, g))
      else
        (let g3 = (case env of [] \<Rightarrow> g | f # fs \<Rightarrow> f g) in
         case acquire vid (get_seq g vid) (collect_vertices g vid) g3 of
           Inl e \<Rightarrow> Some (Inl e)
         | Inr g4 \<Rightarrow>
             if get_seq g4 vid \<noteq> get_seq g vid
             then remove_vertex n (tl env) vid (unlock_all (rev (collect_vertices g vid)) g4)
             else
               (case detach vid (collect_vertices g vid) g4 of
                  Inl e \<Rightarrow> Some (Inl e)
                | Inr g5 \<Rightarrow>
                    if vertex g5 vid = None then Some (Inl Null_deref)
                    else Some (Inr (True, release (rev (collect_vertices g vid)) (set_vertex vid None g5))))))"
proof -
  have c: "collect_vertices (set_locked vid g) vid = collect_vertices g vid"
    using assms by (simp add: collect_vertices_def)
  show ?thesis
    using assms by (simp add: lock_eq unlock_set_locked c Let_def)
qed

lemma remove_vertex_absent:
  assumes "in_range g vid" "\<not> locked g vid" "vertex g vid = None"
  shows "remove_vertex (Suc n) env vid g = Some (Inr (False, g))"
  using assms by (simp del: remove_vertex.simps add: remove_vertex_head)

lemma remove_vertex_restart:
  assumes vid: "in_range g vid" "\<not> locked g vid" and pres: "vertex g vid \<noteq> None"
    and len: "length g3 = length g" and g3: "g3 = (case env of [] \<Rightarrow> g | f # fs \<Rightarrow> f g)"
    and seq: "get_seq g3 vid \<noteq> get_seq g vid"
    and free: "\<forall>u\<in>set (collect_vertices g vid). in_range g3 u \<and> \<not> locked g3 u"
  shows "remove_vertex (Suc n) env vid g = remove_vertex n (tl env) vid g3"
proof -
  let ?vs = "collect_vertices g vid"
  have rg: "in_range g3 i = in_range g i" for i by (rule in_range_length[OF len])
  have a: "acquire vid (get_seq g vid) ?vs g3 = lock_all ?vs g3"
    using vid seq by (intro acquire_lock_all) (auto simp: rg)
  from lock_all_result[OF free collect_vertices_props(1)] obtain g4 where
    g4: "lock_all ?vs g3 = Inr g4" "length g4 = length g3"
    and o4: "\<forall>j. in_range g3 j \<longrightarrow> vertex g4 j = vertex g3 j \<and> get_seq g4 j = get_seq g3 j \<and>
        locked g4 j = (j \<in> set ?vs \<or> locked g3 j)"
    by blast
  have rg4: "in_range g4 i = in_range g3 i" for i by (rule in_range_length[OF g4(2)])
  have "\<forall>u\<in>set (rev ?vs). in_range g4 u" using free by (simp add: rg4)
  from unlock_all_result[OF this]
  have u: "length (unlock_all (rev ?vs) g4) = length g4"
    "\<And>j. in_range g3 j \<Longrightarrow> vertex (unlock_all (rev ?vs) g4) j = vertex g4 j \<and>
        get_seq (unlock_all (rev ?vs) g4) j = get_seq g4 j \<and>
        locked (unlock_all (rev ?vs) g4) j = (j \<notin> set (rev ?vs) \<and> locked g4 j)"
    by (auto simp: rg4)
  have undone: "unlock_all (rev ?vs) g4 = g3"
  proof (rule graph_eqI)
    show "length (unlock_all (rev ?vs) g4) = length g3" using u(1) g4(2) by simp
  next
    fix i assume "in_range (unlock_all (rev ?vs) g4) i"
    then have i: "in_range g3 i" using u(1) g4(2) by (simp add: in_range_def)
    show "vertex (unlock_all (rev ?vs) g4) i = vertex g3 i \<and>
        locked (unlock_all (rev ?vs) g4) i = locked g3 i \<and> get_seq (unlock_all (rev ?vs) g4) i = get_seq g3 i"
      using u(2)[OF i] o4 i free by auto
  qed
  have s4: "get_seq g4 vid \<noteq> get_seq g vid" using o4 vid seq by (simp add: rg)
  show ?thesis
    using pres s4 by (auto simp del: remove_vertex.simps simp add: remove_vertex_head[OF vid] g3[symmetric] a g4(1) undone)
qed

lemma remove_vertex_commits:
  assumes vid: "in_range g vid" "\<not> locked g vid" and pres: "vertex g vid \<noteq> None"
    and g3: "g3 = (case env of [] \<Rightarrow> g | f # fs \<Rightarrow> f g)"
    and inv3: "graph_inv g3" and len: "length g3 = length g"
    and same: "get_seq g3 vid = get_seq g vid" "vertex g3 vid = vertex g vid"
  shows "\<exists>g'. remove_vertex (Suc n) env vid g = Some (Inr (True, g')) \<and> length g' = length g \<and>
      (\<forall>j. in_range g j \<longrightarrow>
         source g' j = (if j = vid then [] else filter (\<lambda>r. Relation_dest r \<noteq> vid) (source g3 j)) \<and>
         destination g' j = (if j = vid then [] else filter (\<lambda>r. Relation_src r \<noteq> vid) (destination g3 j)) \<and>
         \<not> locked g' j \<and>
         get_seq g' j = (if j \<in> set (collect_vertices g vid) then get_seq g3 j + 1 else get_seq g3 j) \<and>
         (vertex g' j = None \<longleftrightarrow> j = vid \<or> vertex g3 j = None))"
proof -
  have rg: "in_range g3 i = in_range g i" for i by (rule in_range_length[OF len])
  have c: "collect_vertices g3 vid = collect_vertices g vid"
    using same(2) by (simp add: collect_vertices_def source_def destination_def)
  have v3: "in_range g3 vid" "vertex g3 vid \<noteq> None" using vid pres same by (simp_all add: rg)
  from remove_vertex_commit[OF inv3 v3] obtain g4 g5 where
    k: "acquire vid (get_seq g vid) (collect_vertices g vid) g3 = Inr g4"
      "get_seq g4 vid = get_seq g vid" "detach vid (collect_vertices g vid) g4 = Inr g5"
      "vertex g5 vid \<noteq> None"
      "length (release (rev (collect_vertices g vid)) (set_vertex vid None g5)) = length g3"
    and o: "\<forall>j. in_range g3 j \<longrightarrow>
         source (release (rev (collect_vertices g vid)) (set_vertex vid None g5)) j =
           (if j = vid then [] else filter (\<lambda>r. Relation_dest r \<noteq> vid) (source g3 j)) \<and>
         destination (release (rev (collect_vertices g vid)) (set_vertex vid None g5)) j =
           (if j = vid then [] else filter (\<lambda>r. Relation_src r \<noteq> vid) (destination g3 j)) \<and>
         \<not> locked (release (rev (collect_vertices g vid)) (set_vertex vid None g5)) j \<and>
         get_seq (release (rev (collect_vertices g vid)) (set_vertex vid None g5)) j =
           (if j \<in> set (collect_vertices g vid) then get_seq g3 j + 1 else get_seq g3 j) \<and>
         (vertex (release (rev (collect_vertices g vid)) (set_vertex vid None g5)) j = None \<longleftrightarrow>
            j = vid \<or> vertex g3 j = None)"
    unfolding c same(1) by blast
  have res: "remove_vertex (Suc n) env vid g =
      Some (Inr (True, release (rev (collect_vertices g vid)) (set_vertex vid None g5)))"
    using pres k by (auto simp del: remove_vertex.simps simp add: remove_vertex_head[OF vid] g3[symmetric])
  show ?thesis
    using res k(5) o len by (auto simp: rg)
qed

lemma commit_inv:
  assumes inv: "graph_inv g" and len: "length g' = length g"
    and o: "\<forall>j. in_range g j \<longrightarrow>
         source g' j = (if j = vid then [] else filter (\<lambda>r. Relation_dest r \<noteq> vid) (source g j)) \<and>
         destination g' j = (if j = vid then [] else filter (\<lambda>r. Relation_src r \<noteq> vid) (destination g j)) \<and>
         \<not> locked g' j"
  shows "graph_inv g' \<and> no_relation_of vid g'"
proof -
  have rg: "in_range g' i = in_range g i" for i by (rule in_range_length[OF len])
  have os: "source g' j = (if j = vid then [] else filter (\<lambda>r. Relation_dest r \<noteq> vid) (source g j))"
    and od: "destination g' j = (if j = vid then [] else filter (\<lambda>r. Relation_src r \<noteq> vid) (destination g j))"
    and ol: "\<not> locked g' j" if "in_range g j" for j
    using o that by blast+
  have "graph_inv g'"
    unfolding graph_inv_def
  proof (intro conjI allI impI)
    fix i assume "in_range g' i"
    then have gi: "in_range g i" by (simp add: rg)
    show "\<not> locked g' i" by (rule ol[OF gi])
    show "\<forall>r\<in>set (source g' i). Relation_src r = i \<and> Relation_dest r \<noteq> i \<and> in_range g' (Relation_dest r)"
      using os[OF gi] inv_source[OF inv gi] by (auto simp: rg)
    show "\<forall>r\<in>set (destination g' i). Relation_dest r = i \<and> Relation_src r \<noteq> i \<and> in_range g' (Relation_src r)"
      using od[OF gi] inv_destination[OF inv gi] by (auto simp: rg)
    show "distinct (map Relation_dest (source g' i))"
      using os[OF gi] inv_distinct_source[OF inv gi] by (auto simp: distinct_map_filter)
    show "distinct (map Relation_src (destination g' i))"
      using od[OF gi] inv_distinct_destination[OF inv gi] by (auto simp: distinct_map_filter)
  next
    fix r :: Relation
    assume "in_range g' (Relation_src r) \<and> in_range g' (Relation_dest r)"
    then have r: "in_range g (Relation_src r)" "in_range g (Relation_dest r)" by (simp_all add: rg)
    have old: "r \<in> set (source g (Relation_src r)) \<longleftrightarrow> r \<in> set (destination g (Relation_dest r))"
      by (rule inv_sym[OF inv r])
    have l: "r \<in> set (source g' (Relation_src r)) \<longleftrightarrow>
        Relation_src r \<noteq> vid \<and> Relation_dest r \<noteq> vid \<and> r \<in> set (source g (Relation_src r))"
      using os[OF r(1)] by auto
    have rr: "r \<in> set (destination g' (Relation_dest r)) \<longleftrightarrow>
        Relation_src r \<noteq> vid \<and> Relation_dest r \<noteq> vid \<and> r \<in> set (destination g (Relation_dest r))"
      using od[OF r(2)] by auto
    show "r \<in> set (source g' (Relation_src r)) \<longleftrightarrow> r \<in> set (destination g' (Relation_dest r))"
      unfolding l rr using old by simp
  qed
  moreover have "no_relation_of vid g'"
    unfolding no_relation_of_def
  proof (intro allI impI ballI)
    fix j r assume "in_range g' j" and r: "r \<in> set (source g' j) \<union> set (destination g' j)"
    then have gj: "in_range g j" by (simp add: rg)
    show "Relation_src r \<noteq> vid \<and> Relation_dest r \<noteq> vid"
      using r os[OF gj] od[OF gj] inv_source[OF inv gj, of r] inv_destination[OF inv gj, of r]
      by (auto split: if_splits)
  qed
  ultimately show ?thesis by simp
qed

lemma remove_vertex_outcome:
  assumes env: "\<forall>f\<in>set env. env_ok f" and inv: "graph_inv g" and vid: "in_range g vid"
  shows "(remove_vertex n env vid g = None \<and> n \<le> length env) \<or>
     (\<exists>b g'. remove_vertex n env vid g = Some (Inr (b, g')) \<and> graph_inv g' \<and> length g' = length g \<and>
        (b \<longrightarrow> no_relation_of vid g' \<and> vertex g' vid = None))"
  using assms
proof (induction n arbitrary: env g)
  case 0
  then show ?case by simp
next
  case (Suc n)
  have free: "\<not> locked g vid" using inv_unlocked[OF Suc.prems(2,3)] .
  show ?case
  proof (cases "vertex g vid = None")
    case True
    from remove_vertex_absent[OF Suc.prems(3) free True] Suc.prems(2) show ?thesis by auto
  next
    case False
    define g3 where "g3 = (case env of [] \<Rightarrow> g | f # fs \<Rightarrow> f g)"
    have g3: "graph_inv g3" "length g3 = length g"
      "get_seq g3 vid = get_seq g vid \<Longrightarrow> vertex g3 vid = vertex g vid"
      using Suc.prems by (auto simp: g3_def env_ok_def split: list.splits)
    have rg: "in_range g3 i = in_range g i" for i by (rule in_range_length[OF g3(2)])
    show ?thesis
    proof (cases "get_seq g3 vid = get_seq g vid")
      case True
      from remove_vertex_commits[OF Suc.prems(3) free False g3_def g3(1,2) True g3(3)[OF True]]
      obtain g' where g': "remove_vertex (Suc n) env vid g = Some (Inr (True, g'))" "length g' = length g"
        and o: "\<forall>j. in_range g j \<longrightarrow>
         source g' j = (if j = vid then [] else filter (\<lambda>r. Relation_dest r \<noteq> vid) (source g3 j)) \<and>
         destination g' j = (if j = vid then [] else filter (\<lambda>r. Relation_src r \<noteq> vid) (destination g3 j)) \<and>
         \<not> locked g' j \<and>
         get_seq g' j = (if j \<in> set (collect_vertices g vid) then get_seq g3 j + 1 else get_seq g3 j) \<and>
         (vertex g' j = None \<longleftrightarrow> j = vid \<or> vertex g3 j = None)"
        by blast
      have "graph_inv g' \<and> no_relation_of vid g'"
        using o g'(2) g3(2) by (intro commit_inv[OF g3(1)]) (auto simp: rg)
      moreover have "vertex g' vid = None" using o Suc.prems(3) by simp
      ultimately show ?thesis using g' by auto
    next
      case False
      then obtain f fs where e: "env = f # fs" by (cases env) (auto simp: g3_def)
      have fr: "\<forall>u\<in>set (collect_vertices g vid). in_range g3 u \<and> \<not> locked g3 u"
        using collect_vertices_neighbours(1)[OF Suc.prems(2,3)] inv_unlocked[OF g3(1)] by (auto simp: rg)
      have step: "remove_vertex (Suc n) env vid g = remove_vertex n (tl env) vid g3"
        by (rule remove_vertex_restart[OF Suc.prems(3) free \<open>vertex g vid \<noteq> None\<close> g3(2) g3_def False fr])
      have "\<forall>f\<in>set (tl env). env_ok f" "in_range g3 vid" using Suc.prems e by (auto simp: rg)
      from Suc.IH[OF this(1) g3(1) this(2)] show ?thesis
        unfolding step using e g3(2) by auto
    qed
  qed
qed

lemma graph_inv_imp_symmetric: "graph_inv g \<Longrightarrow> symmetric g"
  by (simp add: symmetric_def graph_inv_symmetric)

lemma in_range_three: "in_range three_vertices i \<longleftrightarrow> i = 0 \<or> i = 1 \<or> i = 2"
  by (auto simp: in_range_def three_vertices_def)

lemma three_vertices_obs:
  assumes "in_range three_vertices i"
  shows "source three_vertices i = [] \<and> destination three_vertices i = [] \<and>
     \<not> locked three_vertices i \<and> vertex three_vertices i \<noteq> None"
proof -
  from assms have "i = 0 \<or> i = 1 \<or> i = 2" by (simp add: in_range_three)
  then show ?thesis
    by (auto simp: three_vertices_def source_def destination_def vertex_def locked_def one_vertex_def)
qed

lemma graph_inv_three: "graph_inv three_vertices"
  unfolding graph_inv_def using three_vertices_obs by auto

text \<open>
  Symmetry inside the table: in a state between operations, a relation \<open>(u, v)\<close> is in the
  adjacency set of \<open>u\<close> exactly when it is in the incoming set of \<open>v\<close>; and \<^verbatim>\<open>add_edge\<close>,
  \<^verbatim>\<open>remove_edge\<close>, \<^verbatim>\<open>add_vertex\<close> and \<^verbatim>\<open>remove_vertex\<close>, as long as every index they use
  is inside the table, return without a fault, with every lock released, in a state of the
  same kind.
\<close>

lemma symmetry_in_range:
  assumes "graph_inv g"
  shows "symmetric g \<and>
    (in_range g src \<and> in_range g dest \<longrightarrow>
      (\<exists>b g'. add_edge src dest weight g = Inr (b, g') \<and> graph_inv g' \<and> symmetric g')) \<and>
    (in_range g src \<and> in_range g dest \<longrightarrow>
      (\<exists>b g'. remove_edge src dest g = Inr (b, g') \<and> graph_inv g' \<and> symmetric g')) \<and>
    ((\<forall>u\<in>set (sample_vec samples vid). in_range g u) \<longrightarrow>
      (\<exists>b g'. add_vertex samples vid g = Inr (b, g') \<and> graph_inv g' \<and> symmetric g')) \<and>
    (in_range g vid \<and> (\<forall>f\<in>set env. env_ok f) \<and> length env < n \<longrightarrow>
      (\<exists>b g'. remove_vertex n env vid g = Some (Inr (b, g')) \<and> graph_inv g' \<and> symmetric g'))"
proof (intro conjI impI)
  show "symmetric g" using assms by (rule graph_inv_imp_symmetric)
  show "\<exists>b g'. add_edge src dest weight g = Inr (b, g') \<and> graph_inv g' \<and> symmetric g'"
    if "in_range g src \<and> in_range g dest"
    using add_edge_inv[OF assms, of src dest weight] that graph_inv_imp_symmetric by blast
  show "\<exists>b g'. remove_edge src dest g = Inr (b, g') \<and> graph_inv g' \<and> symmetric g'"
    if "in_range g src \<and> in_range g dest"
    using remove_edge_inv[OF assms, of src dest] that graph_inv_imp_symmetric by blast
  show "\<exists>b g'. add_vertex samples vid g = Inr (b, g') \<and> graph_inv g' \<and> symmetric g'"
    if "\<forall>u\<in>set (sample_vec samples vid). in_range g u"
    using add_vertex_inv[OF assms that] graph_inv_imp_symmetric by blast
  show "\<exists>b g'. remove_vertex n env vid g = Some (Inr (b, g')) \<and> graph_inv g' \<and> symmetric g'"
    if a: "in_range g vid \<and> (\<forall>f\<in>set env. env_ok f) \<and> length env < n"
  proof -
    have "\<exists>b g'. remove_vertex n env vid g = Some (Inr (b, g')) \<and> graph_inv g' \<and> length g' = length g \<and>
        (b \<longrightarrow> no_relation_of vid g' \<and> vertex g' vid = None)"
      using remove_vertex_outcome[of env g vid n] assms a by auto
    then show ?thesis using graph_inv_imp_symmetric by blast
  qed
qed

lemma symmetry_in_range_example:
  "graph_inv three_vertices \<and> symmetric three_vertices \<and>
   in_range three_vertices 0 \<and> in_range three_vertices 1 \<and>
   (\<exists>b g'. add_edge 0 1 5 three_vertices = Inr (b, g') \<and> graph_inv g' \<and> symmetric g') \<and>
   (\<exists>b g'. remove_edge 0 1 three_vertices = Inr (b, g') \<and> graph_inv g' \<and> symmetric g') \<and>
   set (sample_vec [2, 2, 1] 0) = {0, 1, 2} \<and>
   (\<exists>b g'. add_vertex [2, 2, 1] 0 three_vertices = Inr (b, g') \<and> graph_inv g' \<and> symmetric g') \<and>
   (\<exists>b g'. remove_vertex 1 [] 0 three_vertices = Some (Inr (b, g')) \<and> graph_inv g' \<and> symmetric g')"
proof -
  have s: "set (sample_vec [2, 2, 1] 0) = {0, 1, 2}"
    by (auto simp: sample_vec_def upt_rec)
  then have "\<forall>u\<in>set (sample_vec [2, 2, 1] 0). in_range three_vertices u" by (simp add: in_range_three)
  with symmetry_in_range[OF graph_inv_three, where src = 0 and dest = 1 and weight = 5
      and samples = "[2, 2, 1]" and vid = 0 and env = "[]" and n = 1] graph_inv_three s
  show ?thesis by (simp add: in_range_three)
qed

text \<open>
  A run of locks over distinct free vertices stops at the first index outside the table.
\<close>

lemma lock_all_out_of_bounds:
  assumes "\<forall>u\<in>set us. in_range g u \<longrightarrow> \<not> locked g u" "distinct us" "\<exists>u\<in>set us. \<not> in_range g u"
  shows "lock_all us g = Inl Out_of_bounds"
  using assms
proof (induction us arbitrary: g)
  case Nil
  then show ?case by simp
next
  case (Cons u us)
  show ?case
  proof (cases "in_range g u")
    case False
    then show ?thesis by (simp add: lock_def)
  next
    case True
    with Cons.prems have step: "lock u g = Inr (set_locked u g)" by (simp add: lock_eq)
    have "lock_all us (set_locked u g) = Inl Out_of_bounds"
      using Cons.prems True by (intro Cons.IH) auto
    then show ?thesis by (simp add: step)
  qed
qed

lemma add_vertex_out_of_range:
  assumes "graph_inv g" "\<exists>u\<in>set (sample_vec samples vid). \<not> in_range g u"
  shows "add_vertex samples vid g = Inl Out_of_bounds"
proof -
  have "\<forall>u\<in>set (sample_vec samples vid). in_range g u \<longrightarrow> \<not> locked g u"
    using assms(1) by (simp add: inv_unlocked)
  moreover have "distinct (sample_vec samples vid)" by (simp add: sample_vec_props)
  ultimately have "lock_all (sample_vec samples vid) g = Inl Out_of_bounds"
    using assms(2) by (rule lock_all_out_of_bounds)
  then show ?thesis by (simp add: add_vertex_def)
qed

text \<open>
  Claim C5 asks that every graph operation restores the symmetry of the two sets before it
  releases its locks. \<^verbatim>\<open>add_vertex\<close> does not get that far when one of its own draws is
  \<^verbatim>\<open>numVertices\<close>, a value \<^verbatim>\<open>uniformVertex(0,numVertices)\<close> can return: on a graph of three
  vertices the draw 3 makes \<^verbatim>\<open>lock(3)\<close> index \<^verbatim>\<open>vMeta\<close> one slot past its end.
\<close>

theorem add_vertex_locks_past_table:
  "3 \<in> set (uniformVertex_values three_vertices) \<and>
   sample_vec [3] 0 = [0, 3] \<and>
   lock 3 three_vertices = Inl Out_of_bounds \<and>
   add_vertex [3] 0 three_vertices = Inl Out_of_bounds"
  by (simp add: uniformVertex_values_def add_vertex_def sample_vec_def three_vertices_def one_vertex_def
      lock_def in_range_def upto.simps)

text \<open>
  Claim C7: \<^verbatim>\<open>add_edge(s, d, w)\<close> returns false and changes nothing when \<open>s = d\<close>, when
  an endpoint is absent or when the edge is already in the adjacency set of \<open>s\<close>;
  otherwise it returns true, the relation has joined the adjacency set of \<open>s\<close> and the
  incoming set of \<open>d\<close>, and both sequence numbers have gone up by one.
\<close>

theorem add_edge_contract:
  assumes "graph_inv g" "src \<noteq> dest \<longrightarrow> in_range g src \<and> in_range g dest"
  shows "if src = dest \<or> vertex g src = None \<or> vertex g dest = None \<or>
            has_relation (source g src) (edge src dest)
         then add_edge src dest weight g = Inr (False, g)
         else \<exists>g'. add_edge src dest weight g = Inr (True, g') \<and> length g' = length g \<and>
                source g' src = source g src @
                  [\<lparr>Relation_src = src, Relation_dest = dest, Relation_weight = weight\<rparr>] \<and>
                destination g' dest = destination g dest @
                  [\<lparr>Relation_src = src, Relation_dest = dest, Relation_weight = weight\<rparr>] \<and>
                get_seq g' src = get_seq g src + 1 \<and> get_seq g' dest = get_seq g dest + 1"
proof (cases "src = dest \<or> vertex g src = None \<or> vertex g dest = None \<or>
            has_relation (source g src) (edge src dest)")
  case True
  have "add_edge src dest weight g = Inr (False, g)"
  proof (cases "src = dest")
    case True
    then show ?thesis by (simp add: add_edge_def)
  next
    case False
    show ?thesis
    proof (rule add_edge_refused)
      show "src \<noteq> dest \<longrightarrow> in_range g src \<and> in_range g dest \<and> \<not> locked g src \<and> \<not> locked g dest"
        using assms inv_unlocked[OF assms(1)] by blast
      show "has_relation (source g src) (edge src dest) \<longrightarrow> has_relation (destination g dest) (edge src dest)"
        using False graph_inv_symmetric[OF assms(1)] assms(2) by simp
      show "src = dest \<or> vertex g src = None \<or> vertex g dest = None \<or>
            has_relation (source g src) (edge src dest)" by (rule True)
    qed
  qed
  with True show ?thesis by simp
next
  case False
  then have rng: "in_range g src" "in_range g dest" using assms(2) by auto
  have "\<not> has_relation (destination g dest) (edge src dest)"
    using False graph_inv_symmetric[OF assms(1) rng] by simp
  then have "\<exists>g'. add_edge src dest weight g = Inr (True, g') \<and> length g' = length g \<and>
     (\<forall>j. in_range g j \<longrightarrow>
        source g' j = (if j = src then source g src @
            [\<lparr>Relation_src = src, Relation_dest = dest, Relation_weight = weight\<rparr>] else source g j) \<and>
        destination g' j = (if j = dest then destination g dest @
            [\<lparr>Relation_src = src, Relation_dest = dest, Relation_weight = weight\<rparr>] else destination g j) \<and>
        locked g' j = locked g j \<and>
        get_seq g' j = (if j = src \<or> j = dest then get_seq g j + 1 else get_seq g j) \<and>
        (vertex g' j = None \<longleftrightarrow> vertex g j = None) \<and>
        (j \<noteq> src \<and> j \<noteq> dest \<longrightarrow> vertex g' j = vertex g j))"
    using False rng inv_unlocked[OF assms(1)] by (intro add_edge_result) auto
  then obtain g' where g': "add_edge src dest weight g = Inr (True, g')" "length g' = length g"
    and o: "\<forall>j. in_range g j \<longrightarrow>
        source g' j = (if j = src then source g src @
            [\<lparr>Relation_src = src, Relation_dest = dest, Relation_weight = weight\<rparr>] else source g j) \<and>
        destination g' j = (if j = dest then destination g dest @
            [\<lparr>Relation_src = src, Relation_dest = dest, Relation_weight = weight\<rparr>] else destination g j) \<and>
        get_seq g' j = (if j = src \<or> j = dest then get_seq g j + 1 else get_seq g j)"
    by blast
  have "source g' src = source g src @
            [\<lparr>Relation_src = src, Relation_dest = dest, Relation_weight = weight\<rparr>]"
    "destination g' dest = destination g dest @
            [\<lparr>Relation_src = src, Relation_dest = dest, Relation_weight = weight\<rparr>]"
    "get_seq g' src = get_seq g src + 1" "get_seq g' dest = get_seq g dest + 1"
    using o rng by simp_all
  with g' False show ?thesis by simp
qed

theorem add_edge_contract_witness:
  "graph_inv three_vertices \<and> in_range three_vertices 0 \<and> in_range three_vertices 1 \<and>
   vertex three_vertices 0 \<noteq> None \<and> vertex three_vertices 1 \<noteq> None \<and>
   \<not> has_relation (source three_vertices 0) (edge 0 1) \<and>
   (\<exists>g'. add_edge 0 1 5 three_vertices = Inr (True, g') \<and>
      source g' 0 = [\<lparr>Relation_src = 0, Relation_dest = 1, Relation_weight = 5\<rparr>] \<and>
      destination g' 1 = [\<lparr>Relation_src = 0, Relation_dest = 1, Relation_weight = 5\<rparr>] \<and>
      get_seq g' 0 = 1 \<and> get_seq g' 1 = 1) \<and>
   add_edge 1 1 5 three_vertices = Inr (False, three_vertices)"
proof -
  have r: "in_range three_vertices 0" "in_range three_vertices 1" by (simp_all add: in_range_three)
  have s: "get_seq three_vertices 0 = 0" "get_seq three_vertices 1 = 0"
    by (simp_all add: get_seq_def three_vertices_def one_vertex_def)
  have a: "\<not> (0 = (1::int) \<or> vertex three_vertices 0 = None \<or> vertex three_vertices 1 = None \<or>
            has_relation (source three_vertices 0) (edge 0 1))"
    using three_vertices_obs[OF r(1)] three_vertices_obs[OF r(2)] by (simp add: has_relation_def Set_find_def)
  have b: "\<exists>g'. add_edge 0 1 5 three_vertices = Inr (True, g') \<and>
      source g' 0 = [\<lparr>Relation_src = 0, Relation_dest = 1, Relation_weight = 5\<rparr>] \<and>
      destination g' 1 = [\<lparr>Relation_src = 0, Relation_dest = 1, Relation_weight = 5\<rparr>] \<and>
      get_seq g' 0 = 1 \<and> get_seq g' 1 = 1"
    using add_edge_contract[OF graph_inv_three, of 0 1 5] a r
      three_vertices_obs[OF r(1)] three_vertices_obs[OF r(2)] s
    by (simp only: if_False) auto
  have c: "add_edge 1 1 5 three_vertices = Inr (False, three_vertices)"
    using add_edge_contract[OF graph_inv_three, of 1 1 5] by simp
  show ?thesis
    using a b c r graph_inv_three by simp
qed

lemma env_ok_add_edge: "env_ok (other_add_edge src dest weight)"
  unfolding env_ok_def
proof (intro allI impI)
  fix g assume inv: "graph_inv g"
  let ?f = "other_add_edge src dest weight"
  show "graph_inv (?f g) \<and> length (?f g) = length g \<and>
        (\<forall>v. in_range g v \<and> get_seq (?f g) v = get_seq g v \<longrightarrow> vertex (?f g) v = vertex g v)"
  proof (cases "src = dest \<or> \<not> in_range g src \<or> \<not> in_range g dest \<or> vertex g src = None \<or> vertex g dest = None \<or>
            has_relation (source g src) (edge src dest)")
    case True
    have "?f g = g"
    proof (cases "src \<noteq> dest \<and> (\<not> in_range g src \<or> \<not> in_range g dest)")
      case True
      then have "lock_all (lock_order src dest) g = Inl Out_of_bounds"
        using inv_unlocked[OF inv] by (auto simp: lock_order_def lock_eq)
      then show ?thesis using True by (simp add: other_add_edge_def add_edge_def Let_def)
    next
      case False
      have "add_edge src dest weight g = Inr (False, g)"
      proof (cases "src = dest")
        case True
        then show ?thesis by (simp add: add_edge_def)
      next
        case ne: False
        with False \<open>src = dest \<or> \<not> in_range g src \<or> \<not> in_range g dest \<or> vertex g src = None \<or>
            vertex g dest = None \<or> has_relation (source g src) (edge src dest)\<close>
        show ?thesis
          using inv_unlocked[OF inv] graph_inv_symmetric[OF inv]
          by (intro add_edge_refused) auto
      qed
      then show ?thesis by (simp add: other_add_edge_def)
    qed
    with inv show ?thesis by simp
  next
    case False
    then have rng: "in_range g src" "in_range g dest" by auto
    have "\<not> has_relation (destination g dest) (edge src dest)"
      using False graph_inv_symmetric[OF inv rng] by simp
    then have "\<exists>g'. add_edge src dest weight g = Inr (True, g') \<and> length g' = length g \<and>
     (\<forall>j. in_range g j \<longrightarrow>
        source g' j = (if j = src then source g src @
            [\<lparr>Relation_src = src, Relation_dest = dest, Relation_weight = weight\<rparr>] else source g j) \<and>
        destination g' j = (if j = dest then destination g dest @
            [\<lparr>Relation_src = src, Relation_dest = dest, Relation_weight = weight\<rparr>] else destination g j) \<and>
        locked g' j = locked g j \<and>
        get_seq g' j = (if j = src \<or> j = dest then get_seq g j + 1 else get_seq g j) \<and>
        (vertex g' j = None \<longleftrightarrow> vertex g j = None) \<and>
        (j \<noteq> src \<and> j \<noteq> dest \<longrightarrow> vertex g' j = vertex g j))"
      using False rng inv_unlocked[OF inv] by (intro add_edge_result) auto
    then obtain g' where g': "add_edge src dest weight g = Inr (True, g')"
      and o: "\<forall>j. in_range g j \<longrightarrow>
        get_seq g' j = (if j = src \<or> j = dest then get_seq g j + 1 else get_seq g j) \<and>
        (j \<noteq> src \<and> j \<noteq> dest \<longrightarrow> vertex g' j = vertex g j)"
      by blast
    have f: "?f g = g'" using g' by (simp add: other_add_edge_def)
    from add_edge_inv[OF inv rng, of weight] g' have "graph_inv g'" "length g' = length g" by auto
    moreover have "\<forall>v. in_range g v \<and> get_seq g' v = get_seq g v \<longrightarrow> vertex g' v = vertex g v"
      using o by auto
    ultimately show ?thesis unfolding f by simp
  qed
qed

text \<open>
  Claim C6: \<^verbatim>\<open>remove_vertex(v)\<close> takes its locks in ascending order of the ids it
  collected; when the sequence number of \<open>v\<close> has changed since the scan, every lock is
  released and the operation starts over from the state the other threads left; when it
  returns true, no relation with source or destination \<open>v\<close> is left in any set; and once
  the other threads are quiet it returns.
\<close>

theorem remove_vertex_two_phase:
  assumes "graph_inv g" "in_range g vid" "\<forall>f\<in>set env. env_ok f"
  shows "sorted (collect_vertices g vid) \<and> distinct (collect_vertices g vid) \<and>
    (\<forall>f fs. env = f # fs \<and> vertex g vid \<noteq> None \<and> get_seq (f g) vid \<noteq> get_seq g vid \<longrightarrow>
       remove_vertex (Suc n) env vid g = remove_vertex n fs vid (f g) \<and>
       (\<forall>j. in_range (f g) j \<longrightarrow> \<not> locked (f g) j)) \<and>
    (\<forall>g'. remove_vertex n env vid g = Some (Inr (True, g')) \<longrightarrow>
       no_relation_of vid g' \<and> vertex g' vid = None) \<and>
    (length env < n \<longrightarrow> (\<exists>b g'. remove_vertex n env vid g = Some (Inr (b, g'))))"
proof (intro conjI allI impI)
  show "sorted (collect_vertices g vid)" "distinct (collect_vertices g vid)"
    by (simp_all add: collect_vertices_props)
next
  fix f fs assume a: "env = f # fs \<and> vertex g vid \<noteq> None \<and> get_seq (f g) vid \<noteq> get_seq g vid"
  then have ok: "env_ok f" using assms(3) by simp
  then have fg: "graph_inv (f g)" "length (f g) = length g" using assms(1) by (auto simp: env_ok_def)
  have rg: "in_range (f g) i = in_range g i" for i by (rule in_range_length[OF fg(2)])
  have fr: "\<forall>u\<in>set (collect_vertices g vid). in_range (f g) u \<and> \<not> locked (f g) u"
    using collect_vertices_neighbours(1)[OF assms(1,2)] inv_unlocked[OF fg(1)] by (auto simp: rg)
  have "remove_vertex (Suc n) env vid g = remove_vertex n (tl env) vid (f g)"
    using a by (intro remove_vertex_restart[OF assms(2) inv_unlocked[OF assms(1,2)] _ fg(2) _ _ fr]) auto
  then show "remove_vertex (Suc n) env vid g = remove_vertex n fs vid (f g)" using a by simp
  show "\<not> locked (f g) j" if "in_range (f g) j" for j using inv_unlocked[OF fg(1) that] .
next
  fix g' assume "remove_vertex n env vid g = Some (Inr (True, g'))"
  with remove_vertex_outcome[OF assms(3,1,2), of n]
  show "no_relation_of vid g'" "vertex g' vid = None" by auto
next
  assume "length env < n"
  with remove_vertex_outcome[OF assms(3,1,2), of n]
  show "\<exists>b g'. remove_vertex n env vid g = Some (Inr (b, g'))" by auto
qed

theorem remove_vertex_two_phase_witness:
  "graph_inv three_vertices \<and> in_range three_vertices 0 \<and> env_ok (other_add_edge 0 1 7) \<and>
   vertex three_vertices 0 \<noteq> None \<and>
   get_seq (other_add_edge 0 1 7 three_vertices) 0 \<noteq> get_seq three_vertices 0 \<and>
   remove_vertex 2 [other_add_edge 0 1 7] 0 three_vertices =
     remove_vertex 1 [] 0 (other_add_edge 0 1 7 three_vertices) \<and>
   (\<exists>g'. remove_vertex 2 [other_add_edge 0 1 7] 0 three_vertices = Some (Inr (True, g')) \<and>
      no_relation_of 0 g' \<and> vertex g' 0 = None)"
proof -
  have r: "in_range three_vertices 0" by (simp add: in_range_three)
  have p: "vertex three_vertices 0 \<noteq> None" using three_vertices_obs[OF r] by simp
  have q: "get_seq (other_add_edge 0 1 7 three_vertices) 0 \<noteq> get_seq three_vertices 0"
    by code_simp
  have "remove_vertex 2 [other_add_edge 0 1 7] 0 three_vertices =
      Some (Inr (True,
        [\<lparr>idxToVertex = None, vertexLocks = False, vertexSeqs = 2\<rparr>,
         (one_vertex 1)\<lparr>vertexSeqs := 2\<rparr>, one_vertex 2]))"
    by code_simp
  then have e: "\<exists>g'. remove_vertex 2 [other_add_edge 0 1 7] 0 three_vertices = Some (Inr (True, g'))"
    by blast
  have t: "\<forall>f\<in>set [other_add_edge 0 1 7]. env_ok f" by (simp add: env_ok_add_edge)
  note main = remove_vertex_two_phase[OF graph_inv_three r t]
  have s: "remove_vertex 2 [other_add_edge 0 1 7] 0 three_vertices =
     remove_vertex 1 [] 0 (other_add_edge 0 1 7 three_vertices)"
    using main[of 1] p q by (simp add: numeral_2_eq_2)
  from e obtain g' where g': "remove_vertex 2 [other_add_edge 0 1 7] 0 three_vertices = Some (Inr (True, g'))"
    by blast
  with main[of 2] have "no_relation_of 0 g' \<and> vertex g' 0 = None" by blast
  with g' graph_inv_three r p q s env_ok_add_edge show ?thesis by blast
qed

text \<open>
  Claim C8 asks that no operation increments a sequence number without a change to the
  vertex or its relations. \<^verbatim>\<open>add_vertex\<close> of a vertex that exists returns false, changes
  no vertex and no relation, and still increments the sequence number of that vertex.
\<close>

theorem add_vertex_bumps_without_change:
  "add_vertex [] 0 three_vertices =
     Inr (False, three_vertices[0 := (three_vertices ! 0)\<lparr>vertexSeqs := vertexSeqs (three_vertices ! 0) + 1\<rparr>])"
  by (simp add: add_vertex_def sample_vec_def three_vertices_def one_vertex_def lock_def in_range_def vertex_def
      inc_seq_def unlock_def)

end
